theory Spec2Isabelle
  imports Complex_Main
begin

section \<open>JavaScript numbers\<close>

text \<open>
  The speed test computes with JavaScript numbers, the double precision numbers of
  IEEE 754. A finite number other than the negative zero is modelled by the rational it
  denotes, \<open>Fin 0\<close> being the positive zero; \<open>NaN\<close>, the two infinities and the negative
  zero are values of their own. Every arithmetic operation computes the exact result and
  rounds it to the nearest double, a tie going to the even significand (\<open>dbl\<close>).
\<close>

datatype jsnum = Fin rat | NegZero | PosInf | NegInf | NaN

definition is_nan :: "jsnum \<Rightarrow> bool" where
  "is_nan x = (x = NaN)"

definition is_inf :: "jsnum \<Rightarrow> bool" where
  "is_inf x = (x = PosInf \<or> x = NegInf)"

definition is_zero :: "jsnum \<Rightarrow> bool" where
  "is_zero x = (x = Fin 0 \<or> x = NegZero)"

text \<open>The sign bit.\<close>

fun neg :: "jsnum \<Rightarrow> bool" where
  "neg (Fin r) = (r < 0)"
| "neg NegZero = True"
| "neg PosInf = False"
| "neg NegInf = True"
| "neg NaN = False"

fun mag :: "jsnum \<Rightarrow> rat" where
  "mag (Fin r) = r"
| "mag _ = 0"

definition signed_zero :: "bool \<Rightarrow> jsnum" where
  "signed_zero s = (if s then NegZero else Fin 0)"

definition signed_inf :: "bool \<Rightarrow> jsnum" where
  "signed_inf s = (if s then NegInf else PosInf)"

subsection \<open>Rounding to double precision\<close>

text \<open>The number of binary digits of a positive integer, less one.\<close>

function ilog2_int :: "int \<Rightarrow> int" where
  "ilog2_int n = (if n \<le> 1 then 0 else 1 + ilog2_int (n div 2))"
  by pat_completeness auto
termination
  by (relation "measure nat") auto

definition sqr :: "rat \<Rightarrow> rat" where
  "sqr x = x * x"

text \<open>The power of 2 with the integer exponent \<open>n\<close>, by repeated squaring.\<close>

function pow2 :: "int \<Rightarrow> rat" where
  "pow2 n =
     (if n < 0 then 1 / pow2 (- n)
      else if n = 0 then 1
      else if even n then sqr (pow2 (n div 2))
      else 2 * sqr (pow2 (n div 2)))"
  by pat_completeness auto
termination
  by (relation "measure (\<lambda>n. if n < 0 then Suc (nat (- n)) else nat n)") auto

text \<open>The binary exponent of a positive rational \<open>x\<close>: the \<open>e\<close> with \<open>2 ^ e \<le> x < 2 ^ (e + 1)\<close>.\<close>

definition ilog2 :: "rat \<Rightarrow> int" where
  "ilog2 x =
     (let (p, q) = quotient_of x; d = ilog2_int p - ilog2_int q
      in if pow2 d \<le> x then d else d - 1)"

text \<open>The nearest integer, a tie going to the even one.\<close>

definition rte :: "rat \<Rightarrow> int" where
  "rte y =
     (let k = \<lfloor>y\<rfloor>; f = y - of_int k
      in if f < 1 / 2 then k else if 1 / 2 < f then k + 1 else if even k then k else k + 1)"

text \<open>
  The distance between the doubles around a positive \<open>a\<close>: 53 binary digits, and the
  least exponent is \<open>-1022\<close> (below it the numbers are subnormal).
\<close>

definition ulp :: "rat \<Rightarrow> rat" where
  "ulp a = pow2 (max (ilog2 a) (- 1022) - 52)"

text \<open>
  The double nearest to a rational: a result that rounds to \<open>2 ^ 1024\<close> or more is an
  infinity, and one that rounds to zero keeps its sign.
\<close>

definition dbl :: "rat \<Rightarrow> jsnum" where
  "dbl x =
     (if x = 0 then Fin 0
      else
        (let a = \<bar>x\<bar>; m = of_int (rte (a / ulp a)) * ulp a
         in if m = 0 then signed_zero (x < 0)
            else if 1024 \<le> ilog2 m then signed_inf (x < 0)
            else Fin (if x < 0 then - m else m)))"

text \<open>The largest double that is not above \<open>r\<close>, for \<open>r\<close> in \<open>[0, 1)\<close>.\<close>

definition dbl_down :: "rat \<Rightarrow> rat" where
  "dbl_down r = (if r \<le> 0 then 0 else of_int \<lfloor>r / ulp r\<rfloor> * ulp r)"

subsection \<open>The operations\<close>

text \<open>The unary \<open>-\<close> and \<open>Math.abs\<close>.\<close>

definition js_neg :: "jsnum \<Rightarrow> jsnum" where
  "js_neg a =
     (case a of
        Fin r \<Rightarrow> if r = 0 then NegZero else Fin (- r)
      | NegZero \<Rightarrow> Fin 0
      | PosInf \<Rightarrow> NegInf
      | NegInf \<Rightarrow> PosInf
      | NaN \<Rightarrow> NaN)"

definition js_abs :: "jsnum \<Rightarrow> jsnum" where
  "js_abs a =
     (case a of
        Fin r \<Rightarrow> Fin \<bar>r\<bar>
      | NegZero \<Rightarrow> Fin 0
      | PosInf \<Rightarrow> PosInf
      | NegInf \<Rightarrow> PosInf
      | NaN \<Rightarrow> NaN)"

text \<open>The operator \<open>+\<close>: an exact sum that is zero is the negative zero only for two negative zeros.\<close>

definition js_add :: "jsnum \<Rightarrow> jsnum \<Rightarrow> jsnum" where
  "js_add a b =
     (if is_nan a \<or> is_nan b then NaN
      else if is_inf a then (if is_inf b \<and> a \<noteq> b then NaN else a)
      else if is_inf b then b
      else if mag a + mag b = 0 then (if a = NegZero \<and> b = NegZero then NegZero else Fin 0)
      else dbl (mag a + mag b))"

text \<open>The operator \<open>-\<close>.\<close>

definition js_sub :: "jsnum \<Rightarrow> jsnum \<Rightarrow> jsnum" where
  "js_sub a b = js_add a (js_neg b)"

text \<open>The operator \<open>/\<close>.\<close>

definition js_div :: "jsnum \<Rightarrow> jsnum \<Rightarrow> jsnum" where
  "js_div a b =
     (if is_nan a \<or> is_nan b then NaN
      else if is_inf a then (if is_inf b then NaN else signed_inf (neg a \<noteq> neg b))
      else if is_inf b then signed_zero (neg a \<noteq> neg b)
      else if is_zero b then (if is_zero a then NaN else signed_inf (neg a \<noteq> neg b))
      else if is_zero a then signed_zero (neg a \<noteq> neg b)
      else dbl (mag a / mag b))"

text \<open>The operator \<open>*\<close>.\<close>

definition js_mul :: "jsnum \<Rightarrow> jsnum \<Rightarrow> jsnum" where
  "js_mul a b =
     (if is_nan a \<or> is_nan b then NaN
      else if is_inf a \<or> is_inf b then
        (if is_zero a \<or> is_zero b then NaN else signed_inf (neg a \<noteq> neg b))
      else if is_zero a \<or> is_zero b then signed_zero (neg a \<noteq> neg b)
      else dbl (mag a * mag b))"

text \<open>\<open>a < b\<close> on numbers other than \<open>NaN\<close>; the two zeros are equal.\<close>

definition js_less :: "jsnum \<Rightarrow> jsnum \<Rightarrow> bool" where
  "js_less a b =
     (if a = NegInf then b \<noteq> NegInf
      else if b = NegInf then False
      else if a = PosInf then False
      else if b = PosInf then True
      else mag a < mag b)"

text \<open>\<open>Math.min(a, b)\<close>: \<open>NaN\<close> if either is, and the negative zero below the positive.\<close>

definition js_min :: "jsnum \<Rightarrow> jsnum \<Rightarrow> jsnum" where
  "js_min a b =
     (if is_nan a \<or> is_nan b then NaN
      else if js_less b a then b
      else if js_less a b then a
      else if neg a then a else b)"

text \<open>
  \<open>Math.round\<close>: the nearest integer, a tie going up; a value in \<open>[-0.5, 0)\<close> gives the
  negative zero. The result is exact: a double of magnitude \<open>2 ^ 52\<close> or more is an integer.
\<close>

fun js_round :: "jsnum \<Rightarrow> jsnum" where
  "js_round (Fin r) =
     (let k = \<lfloor>r + 1 / 2\<rfloor> in if k = 0 \<and> r < 0 then NegZero else Fin (of_int k))"
| "js_round x = x"

text \<open>\<open>Math.floor\<close>, exact as well.\<close>

definition js_floor :: "jsnum \<Rightarrow> jsnum" where
  "js_floor a = (case a of Fin r \<Rightarrow> Fin (of_int \<lfloor>r\<rfloor>) | _ \<Rightarrow> a)"

text \<open>\<open>Math.min(...xs)\<close>; \<open>Math.min()\<close> is \<open>Infinity\<close>.\<close>

definition math_min :: "jsnum list \<Rightarrow> jsnum" where
  "math_min xs = fold (\<lambda>x m. js_min m x) xs PosInf"

subsection \<open>Converting a string to a number\<close>

text \<open>
  The unary \<open>+\<close> on a string (StringToNumber): the string without the white space around
  it is empty (zero), a radix literal, a signed \<open>Infinity\<close> or a signed decimal literal;
  anything else is \<open>NaN\<close>. A header value is a byte string, so the white space characters
  are the seven below.
\<close>

definition is_ws :: "char \<Rightarrow> bool" where
  "is_ws c = (of_char c \<in> {9, 10, 11, 12, 13, 32, 160 :: nat})"

definition trim :: "string \<Rightarrow> string" where
  "trim s = rev (dropWhile is_ws (rev (dropWhile is_ws s)))"

definition digit_of :: "char \<Rightarrow> nat option" where
  "digit_of c =
     (let n = (of_char c :: nat) in
      if 48 \<le> n \<and> n \<le> 57 then Some (n - 48)
      else if 97 \<le> n \<and> n \<le> 102 then Some (n - 87)
      else if 65 \<le> n \<and> n \<le> 70 then Some (n - 55)
      else None)"

definition is_digit :: "nat \<Rightarrow> char \<Rightarrow> bool" where
  "is_digit base c = (case digit_of c of None \<Rightarrow> False | Some d \<Rightarrow> d < base)"

definition digits_value :: "nat \<Rightarrow> string \<Rightarrow> int" where
  "digits_value base s =
     fold (\<lambda>c acc. acc * int base + (case digit_of c of None \<Rightarrow> 0 | Some d \<Rightarrow> int d)) s 0"

definition parse_radix :: "nat \<Rightarrow> string \<Rightarrow> jsnum" where
  "parse_radix base s =
     (if s \<noteq> [] \<and> list_all (is_digit base) s then dbl (of_int (digits_value base s)) else NaN)"

text \<open>The exponent part after the \<open>e\<close>: an optional sign and at least one digit.\<close>

definition parse_exponent :: "string \<Rightarrow> int option" where
  "parse_exponent s =
     (let (sg, ds) = (case s of
                        c # t \<Rightarrow> if c = CHR ''+'' then (1, t) else if c = CHR ''-'' then (- 1, t) else (1, s)
                      | [] \<Rightarrow> (1, s))
      in if ds \<noteq> [] \<and> list_all (is_digit 10) ds then Some (sg * digits_value 10 ds) else None)"

text \<open>
  An unsigned decimal literal: digits, an optional fraction and an optional exponent,
  with at least one digit before the exponent.
\<close>

definition parse_unsigned_decimal :: "string \<Rightarrow> rat option" where
  "parse_unsigned_decimal s =
     (let ip = takeWhile (is_digit 10) s;
          r1 = dropWhile (is_digit 10) s;
          (fp, r2) = (case r1 of
                        c # t \<Rightarrow> if c = CHR ''.'' then (takeWhile (is_digit 10) t, dropWhile (is_digit 10) t)
                                 else ([], r1)
                      | [] \<Rightarrow> ([], r1));
          m = of_int (digits_value 10 ip) + of_int (digits_value 10 fp) / 10 ^ length fp
      in if ip = [] \<and> fp = [] then None
         else (case r2 of
                 [] \<Rightarrow> Some m
               | c # t \<Rightarrow>
                   if c = CHR ''e'' \<or> c = CHR ''E'' then
                     (case parse_exponent t of
                        None \<Rightarrow> None
                      | Some x \<Rightarrow> Some (if 0 \<le> x then m * 10 ^ nat x else m / 10 ^ nat (- x)))
                   else None))"

text \<open>The value of a literal is the double nearest to the number that it writes.\<close>

definition toNumber :: "string \<Rightarrow> jsnum" where
  "toNumber s =
     (let t = trim s in
      if t = [] then Fin 0
      else if take 2 t \<in> {''0x'', ''0X''} then parse_radix 16 (drop 2 t)
      else if take 2 t \<in> {''0o'', ''0O''} then parse_radix 8 (drop 2 t)
      else if take 2 t \<in> {''0b'', ''0B''} then parse_radix 2 (drop 2 t)
      else
        (let (sg, u) = (case t of
                          c # r \<Rightarrow> if c = CHR ''+'' then (False, r) else if c = CHR ''-'' then (True, r) else (False, t)
                        | [] \<Rightarrow> (False, t))
         in if u = ''Infinity'' then signed_inf sg
            else (case parse_unsigned_decimal u of
                    None \<Rightarrow> NaN
                  | Some r \<Rightarrow> if r = 0 then signed_zero sg else dbl (if sg then - r else r))))"

section \<open>JavaScript values\<close>

text \<open>
  The values that \<open>response.json()\<close> can give, and \<open>undefined\<close> for a property that is not
  there. An object is the list of its properties.
\<close>

datatype jsval =
    Undefined
  | Null
  | Bool bool
  | Num jsnum
  | Str string
  | Arr "jsval list"
  | Obj "(string \<times> jsval) list"

datatype js_error = TypeError | NoReader | ReadFailed

text \<open>What \<open>if\<close> and \<open>||\<close> take for true.\<close>

fun truthy :: "jsval \<Rightarrow> bool" where
  "truthy Undefined = False"
| "truthy Null = False"
| "truthy (Bool b) = b"
| "truthy (Num n) = (\<not> is_zero n \<and> \<not> is_nan n)"
| "truthy (Str s) = (s \<noteq> [])"
| "truthy (Arr xs) = True"
| "truthy (Obj kvs) = True"

text \<open>
  \<open>v.k\<close> for a property name \<open>k\<close> that no prototype defines (\<open>success\<close>, \<open>ip\<close>, \<open>isp\<close>,
  \<open>connection\<close>): reading a property of \<open>undefined\<close> or \<open>null\<close> throws.
\<close>

fun get_prop :: "jsval \<Rightarrow> string \<Rightarrow> js_error + jsval" where
  "get_prop Undefined k = Inl TypeError"
| "get_prop Null k = Inl TypeError"
| "get_prop (Obj kvs) k = Inr (case map_of kvs k of None \<Rightarrow> Undefined | Some v \<Rightarrow> v)"
| "get_prop v k = Inr Undefined"

section \<open>The session state\<close>

text \<open>
  The state of the component \<open>Root\<close> of \<open>SpeedTest.tsx\<close>: one field for each
  \<open>useState\<close> hook, \<open>null\<close> being \<open>None\<close>.
\<close>

datatype phase = Idle | Ping | Download | Upload | Complete

text \<open>
  \<open>ipInfo\<close> is declared with two strings; what is stored is whatever the response holds.
\<close>

record ip_info =
  ip :: jsval
  isp :: jsval

record session =
  downloadSpeed :: "jsnum option"
  uploadSpeed :: "jsnum option"
  ping :: "jsnum option"
  jitter :: "jsnum option"
  ipInfo :: "ip_info option"
  isTesting :: bool
  progress :: jsnum
  phase :: phase
  error :: "string option"

text \<open>The initial values of the hooks.\<close>

definition initial :: session where
  "initial = \<lparr>downloadSpeed = None, uploadSpeed = None, ping = None, jitter = None,
     ipInfo = None, isTesting = False, progress = Fin 0, phase = Idle, error = None\<rparr>"

text \<open>
  A run is observed through the states it passes: the current state and, newest first,
  the earlier ones. Every call of a setter adds a state, so whatever an observer renders
  between two suspension points is one of the states of the trace.
\<close>

type_synonym run = "session \<times> session list"

definition set_state :: "(session \<Rightarrow> session) \<Rightarrow> run \<Rightarrow> run" where
  "set_state f st = (f (fst st), fst st # snd st)"

definition trace :: "run \<Rightarrow> session list" where
  "trace st = rev (snd st) @ [fst st]"

definition setDownloadSpeed :: "jsnum option \<Rightarrow> run \<Rightarrow> run" where
  "setDownloadSpeed v = set_state (\<lambda>s. s\<lparr>downloadSpeed := v\<rparr>)"

definition setUploadSpeed :: "jsnum option \<Rightarrow> run \<Rightarrow> run" where
  "setUploadSpeed v = set_state (\<lambda>s. s\<lparr>uploadSpeed := v\<rparr>)"

definition setPing :: "jsnum option \<Rightarrow> run \<Rightarrow> run" where
  "setPing v = set_state (\<lambda>s. s\<lparr>ping := v\<rparr>)"

definition setJitter :: "jsnum option \<Rightarrow> run \<Rightarrow> run" where
  "setJitter v = set_state (\<lambda>s. s\<lparr>jitter := v\<rparr>)"

definition setIsTesting :: "bool \<Rightarrow> run \<Rightarrow> run" where
  "setIsTesting v = set_state (\<lambda>s. s\<lparr>isTesting := v\<rparr>)"

definition setProgress :: "jsnum \<Rightarrow> run \<Rightarrow> run" where
  "setProgress v = set_state (\<lambda>s. s\<lparr>progress := v\<rparr>)"

definition setPhase :: "phase \<Rightarrow> run \<Rightarrow> run" where
  "setPhase v = set_state (\<lambda>s. s\<lparr>phase := v\<rparr>)"

definition setError :: "string option \<Rightarrow> run \<Rightarrow> run" where
  "setError v = set_state (\<lambda>s. s\<lparr>error := v\<rparr>)"

section \<open>The network information\<close>

text \<open>
  The request of \<open>fetchNetworkInfo\<close>: it is rejected, or it resolves with a body that
  is not JSON (\<open>response.json()\<close> is rejected), or with the parsed value. The status of
  the response is not read.
\<close>

datatype lookup = FetchRejected | JsonRejected | Json jsval

text \<open>The body of the \<open>try\<close> block once the data is there: the value to store, if any.\<close>

definition network_info_of :: "jsval \<Rightarrow> js_error + ip_info option" where
  "network_info_of data =
     (case get_prop data ''success'' of
        Inl err \<Rightarrow> Inl err
      | Inr success \<Rightarrow>
          if truthy success then
            (case get_prop data ''ip'' of
               Inl err \<Rightarrow> Inl err
             | Inr data_ip \<Rightarrow>
                 (case get_prop data ''connection'' of
                    Inl err \<Rightarrow> Inl err
                  | Inr connection \<Rightarrow>
                      (case get_prop connection ''isp'' of
                         Inl err \<Rightarrow> Inl err
                       | Inr connection_isp \<Rightarrow>
                           if truthy connection_isp then
                             Inr (Some \<lparr>ip = data_ip, isp = connection_isp\<rparr>)
                           else
                             (case get_prop data ''isp'' of
                                Inl err \<Rightarrow> Inl err
                              | Inr data_isp \<Rightarrow>
                                  Inr (Some \<lparr>ip = data_ip,
                                    isp = (if truthy data_isp then data_isp else Str ''Unknown ISP'')\<rparr>)))))
          else Inr None)"

text \<open>\<open>fetchNetworkInfo\<close>: the \<open>catch\<close> block only logs.\<close>

definition fetchNetworkInfo :: "lookup \<Rightarrow> session \<Rightarrow> session" where
  "fetchNetworkInfo r s =
     (case r of
        FetchRejected \<Rightarrow> s
      | JsonRejected \<Rightarrow> s
      | Json data \<Rightarrow>
          (case network_info_of data of
             Inl err \<Rightarrow> s
           | Inr None \<Rightarrow> s
           | Inr (Some info) \<Rightarrow> s\<lparr>ipInfo := Some info\<rparr>))"

section \<open>The network, the clock and the random numbers\<close>

text \<open>
  What a run reads from outside. Every request settles: a latency probe is the time
  before the request and, when the request resolves, the time after it (\<open>None\<close>: the
  request is rejected); the download request resolves with a response or is rejected
  (\<open>None\<close>). \<open>reader.read()\<close> gives a chunk of some length, the end of the stream, or is
  rejected; the reads are numbered from 0, and a body may give chunks for ever.
  \<open>performance.now()\<close> gives the double nearest to the time (\<open>dbl\<close>), and
  \<open>Math.random()\<close> the largest double that is not above the random number, which is a
  double in \<open>[0, 1)\<close> for a random number in \<open>[0, 1)\<close> (\<open>dbl_down\<close>). The two random
  numbers are those of the download and of the upload.
\<close>

datatype read_result = Chunk nat | Done | ReadRejected

record response =
  ok :: bool
  content_length :: "string option"
  body :: "(nat \<Rightarrow> read_result) option"

record env =
  pingProbe :: "nat \<Rightarrow> rat \<times> rat option"
  downloadStart :: rat
  downloadFetch :: "response option"
  downloadEnd :: rat
  downloadRandom :: rat
  uploadRandom :: rat

section \<open>The ping phase\<close>

definition iterations :: nat where
  "iterations = 5"

text \<open>The loop of \<open>runPingTest\<close>: a probe that resolves pushes its elapsed time.\<close>

function ping_loop :: "(nat \<Rightarrow> rat \<times> rat option) \<Rightarrow> nat \<Rightarrow> jsnum list \<Rightarrow> jsnum list" where
  "ping_loop probe i pings =
     (if i < iterations then
        ping_loop probe (Suc i)
          (case probe i of
             (start, Some finish) \<Rightarrow> pings @ [js_sub (dbl finish) (dbl start)]
           | (start, None) \<Rightarrow> pings)
      else pings)"
  by pat_completeness auto
termination
  by (relation "measure (\<lambda>(probe, i, pings). iterations - i)") auto

definition runPingTest :: "env \<Rightarrow> run \<Rightarrow> run" where
  "runPingTest e st =
     (let pings = ping_loop (pingProbe e) 0 [] in
      if length pings > 0 then
        (let minPing = math_min pings;
             st1 = setPing (Some (js_round minPing)) st;
             mean = js_div (fold (\<lambda>b a. js_add a b) pings (Fin 0)) (Fin (of_nat (length pings)));
             jitterVal = js_div (fold (\<lambda>b a. js_add a (js_abs (js_sub b mean))) pings (Fin 0))
                           (Fin (of_nat (length pings)))
         in setJitter (Some (js_round jitterVal)) st1)
      else st)"

section \<open>The download and upload phases\<close>

text \<open>
  The interval callback of the simulation, the same in \<open>runDownloadTest\<close> and in
  \<open>runUploadTest\<close>: each tick adds 5 to the progress and the tick that reaches 100 is
  the last.
\<close>

function interval_ticks :: "nat \<Rightarrow> run \<Rightarrow> run" where
  "interval_ticks currentProgress st =
     (let currentProgress' = currentProgress + 5;
          st' = setProgress (Fin (of_nat currentProgress')) st
      in if currentProgress' \<ge> 100 then st' else interval_ticks currentProgress' st')"
  by pat_completeness auto
termination
  by (relation "measure (\<lambda>(currentProgress, st). 100 - currentProgress)") auto

text \<open>\<open>Math.floor(Math.random() * (high - low + 1)) + low\<close>, on the random number \<open>r\<close>.\<close>

definition random_between :: "int \<Rightarrow> int \<Rightarrow> rat \<Rightarrow> jsnum" where
  "random_between low high r =
     js_add (js_floor (js_mul (Fin (dbl_down r)) (Fin (of_int (high - low + 1))))) (Fin (of_int low))"

text \<open>
  The loop \<open>while (true)\<close> of \<open>runDownloadTest\<close> over the reads of the body, from the
  read number \<open>i\<close> on. It returns when the stream ends (\<open>Inr\<close>, the bytes received) or a
  read is rejected (\<open>Inl\<close>, the exception); on a stream that never ends it does not return.
  The length of a chunk is a number: an integer below \<open>2 ^ 53\<close>, which \<open>dbl\<close> leaves as it is.
\<close>

partial_function (option) read_loop ::
  "(nat \<Rightarrow> read_result) \<Rightarrow> jsnum \<Rightarrow> nat \<Rightarrow> jsnum \<Rightarrow> run \<Rightarrow> ((js_error + jsnum) \<times> run) option" where
  "read_loop reader contentLength i receivedLength st =
     (case reader i of
        Done \<Rightarrow> Some (Inr receivedLength, st)
      | ReadRejected \<Rightarrow> Some (Inl ReadFailed, st)
      | Chunk n \<Rightarrow>
          read_loop reader contentLength (Suc i) (js_add receivedLength (dbl (of_nat n)))
            (setProgress
               (js_min (Fin 100)
                  (js_mul (js_div (js_add receivedLength (dbl (of_nat n))) contentLength) (Fin 100)))
               st))"

declare read_loop.simps [code]

text \<open>The \<open>catch\<close> block of \<open>runDownloadTest\<close>.\<close>

definition download_catch :: "run \<Rightarrow> jsnum \<times> run" where
  "download_catch st = (Fin 0, setError (Some ''Speed test failed. Please try again.'') st)"

text \<open>\<open>response.headers.get('Content-Length') || '5000000'\<close>, converted by the unary \<open>+\<close>.\<close>

definition contentLength_of :: "string option \<Rightarrow> jsnum" where
  "contentLength_of h =
     toNumber (case h of None \<Rightarrow> ''5000000'' | Some v \<Rightarrow> if v = [] then ''5000000'' else v)"

text \<open>The throughput computed when the stream has ended.\<close>

definition speed_of :: "jsnum \<Rightarrow> jsnum \<Rightarrow> jsnum \<Rightarrow> jsnum" where
  "speed_of receivedLength startTime endTime =
     (let durationInSeconds = js_div (js_sub endTime startTime) (Fin 1000);
          bitsLoaded = js_mul receivedLength (Fin 8);
          speedBps = js_div bitsLoaded durationInSeconds;
          speedMbps = js_div speedBps (js_mul (Fin 1024) (Fin 1024))
      in js_round speedMbps)"

definition runDownloadTest :: "env \<Rightarrow> run \<Rightarrow> (jsnum \<times> run) option" where
  "runDownloadTest e st =
     (let startTime = dbl (downloadStart e) in
      case downloadFetch e of
        None \<Rightarrow> Some (random_between 50 150 (downloadRandom e), interval_ticks 0 st)
      | Some response \<Rightarrow>
          if \<not> ok response then Some (random_between 50 150 (downloadRandom e), interval_ticks 0 st)
          else
            (case body response of
               None \<Rightarrow> Some (download_catch st)
             | Some reader \<Rightarrow>
                 (case read_loop reader (contentLength_of (content_length response)) 0 (Fin 0) st of
                    None \<Rightarrow> None
                  | Some (Inl err, st') \<Rightarrow> Some (download_catch st')
                  | Some (Inr receivedLength, st') \<Rightarrow>
                      Some (speed_of receivedLength startTime (dbl (downloadEnd e)), st'))))"

definition runUploadTest :: "env \<Rightarrow> run \<Rightarrow> jsnum \<times> run" where
  "runUploadTest e st = (random_between 10 50 (uploadRandom e), interval_ticks 0 st)"

section \<open>The run\<close>

text \<open>
  \<open>runTest\<close> from the session \<open>s\<close>; \<open>None\<close> when the download never returns.
\<close>

definition runTest :: "env \<Rightarrow> session \<Rightarrow> run option" where
  "runTest e s =
     (let st = setIsTesting True (s, []);
          st = setError None st;
          st = setDownloadSpeed None st;
          st = setUploadSpeed None st;
          st = setPing None st;
          st = setJitter None st;
          st = setProgress (Fin 0) st;
          st = setPhase Ping st;
          st = runPingTest e st;
          st = setPhase Download st;
          st = setProgress (Fin 0) st
      in case runDownloadTest e st of
           None \<Rightarrow> None
         | Some (dlSpeed, st) \<Rightarrow>
             (let st = setDownloadSpeed (Some dlSpeed) st;
                  st = setPhase Upload st;
                  st = setProgress (Fin 0) st;
                  (ulSpeed, st) = runUploadTest e st;
                  st = setUploadSpeed (Some ulSpeed) st;
                  st = setPhase Complete st;
                  st = setIsTesting False st
              in Some st))"

declare interval_ticks.simps [simp del]
declare ping_loop.simps [simp del]

declare ilog2_int.simps [simp del]
declare pow2.simps [simp del]

section \<open>Notions of the specification\<close>

text \<open>
  The latency samples of a run: the elapsed time of each of the five probes that resolves,
  in the order of the probes.
\<close>

definition samples :: "env \<Rightarrow> jsnum list" where
  "samples e =
     concat (map (\<lambda>i. case pingProbe e i of
                          (start, Some finish) \<Rightarrow> [js_sub (dbl finish) (dbl start)]
                        | (start, None) \<Rightarrow> [])
       [0..<5])"

text \<open>
  The mean of a list of numbers, and the mean of the absolute deviations from the mean, in
  the arithmetic of JavaScript: the sum is taken from the left, starting from 0.
\<close>

definition js_sum :: "jsnum list \<Rightarrow> jsnum" where
  "js_sum xs = foldl js_add (Fin 0) xs"

definition js_mean :: "jsnum list \<Rightarrow> jsnum" where
  "js_mean xs = js_div (js_sum xs) (Fin (of_nat (length xs)))"

definition js_mean_abs_dev :: "jsnum list \<Rightarrow> jsnum" where
  "js_mean_abs_dev xs = js_mean (map (\<lambda>x. js_abs (js_sub x (js_mean xs))) xs)"

text \<open>The same two in exact arithmetic.\<close>

definition mean :: "rat list \<Rightarrow> rat" where
  "mean xs = sum_list xs / of_nat (length xs)"

definition mean_abs_dev :: "rat list \<Rightarrow> rat" where
  "mean_abs_dev xs = mean (map (\<lambda>x. \<bar>x - mean xs\<bar>) xs)"

text \<open>The phases a run visits, in order: the phases of its trace without the repetitions.\<close>

definition visited :: "run \<Rightarrow> phase list" where
  "visited st = remdups_adj (map phase (trace st))"

text \<open>The bytes received after each chunk, from \<open>received\<close> bytes on.\<close>

fun running_totals :: "nat \<Rightarrow> nat list \<Rightarrow> nat list" where
  "running_totals received [] = []"
| "running_totals received (k # ks) = (received + k) # running_totals (received + k) ks"

text \<open>The same in the arithmetic of JavaScript, and the bytes received after the last chunk.\<close>

fun js_running_totals :: "jsnum \<Rightarrow> nat list \<Rightarrow> jsnum list" where
  "js_running_totals received [] = []"
| "js_running_totals received (k # ks) =
     js_add received (dbl (of_nat k)) # js_running_totals (js_add received (dbl (of_nat k))) ks"

definition received_bytes :: "nat list \<Rightarrow> jsnum" where
  "received_bytes ks = last (Fin 0 # js_running_totals (Fin 0) ks)"

text \<open>
  The seconds between the two readings of the clock in \<open>runDownloadTest\<close>, and the
  throughput in Mbps of the specification, \<open>round(receivedBytes * 8 / elapsedSeconds / 1,048,576)\<close>,
  both in the arithmetic of JavaScript.
\<close>

definition elapsed_seconds :: "env \<Rightarrow> jsnum" where
  "elapsed_seconds e = js_div (js_sub (dbl (downloadEnd e)) (dbl (downloadStart e))) (Fin 1000)"

definition mbps :: "jsnum \<Rightarrow> jsnum \<Rightarrow> jsnum" where
  "mbps receivedBytes elapsedSeconds =
     js_round (js_div (js_div (js_mul receivedBytes (Fin 8)) elapsedSeconds) (Fin 1048576))"

text \<open>The body stream of a response ends: some read gives the end or is rejected.\<close>

definition stream_ends :: "(nat \<Rightarrow> read_result) \<Rightarrow> bool" where
  "stream_ends reader = (\<exists>n. reader n = Done \<or> reader n = ReadRejected)"

text \<open>The download of a run settles: the body of a successful response, if it has one, ends.\<close>

definition download_settles :: "env \<Rightarrow> bool" where
  "download_settles e =
     (case downloadFetch e of
        None \<Rightarrow> True
      | Some response \<Rightarrow>
          (case body response of None \<Rightarrow> True | Some reader \<Rightarrow> \<not> ok response \<or> stream_ends reader))"

text \<open>
  The two synchronous ends of \<open>runTest\<close>: up to \<open>setPhase('ping')\<close>, and from the result of
  the download on.
\<close>

definition start_run :: "session \<Rightarrow> run" where
  "start_run s =
     setPhase Ping (setProgress (Fin 0) (setJitter None (setPing None (setUploadSpeed None
       (setDownloadSpeed None (setError None (setIsTesting True (s, []))))))))"

definition finish_run :: "env \<Rightarrow> jsnum \<Rightarrow> run \<Rightarrow> run" where
  "finish_run e dl st =
     setIsTesting False (setPhase Complete (setUploadSpeed (Some (random_between 10 50 (uploadRandom e)))
       (interval_ticks 0 (setProgress (Fin 0) (setPhase Upload (setDownloadSpeed (Some dl) st))))))"

text \<open>
  The states that a run from the session \<open>s\<close> passes before it sets the phase \<open>ping\<close>: \<open>s\<close>
  itself and one state for each of the seven setters that \<open>runTest\<close> calls first.
\<close>

definition clearing :: "session \<Rightarrow> session list" where
  "clearing s =
     [s,
      s\<lparr>isTesting := True\<rparr>,
      s\<lparr>isTesting := True, error := None\<rparr>,
      s\<lparr>isTesting := True, error := None, downloadSpeed := None\<rparr>,
      s\<lparr>isTesting := True, error := None, downloadSpeed := None, uploadSpeed := None\<rparr>,
      s\<lparr>isTesting := True, error := None, downloadSpeed := None, uploadSpeed := None, ping := None\<rparr>,
      s\<lparr>isTesting := True, error := None, downloadSpeed := None, uploadSpeed := None, ping := None,
        jitter := None\<rparr>,
      s\<lparr>isTesting := True, error := None, downloadSpeed := None, uploadSpeed := None, ping := None,
        jitter := None, progress := Fin 0\<rparr>]"

text \<open>
  A part of a run keeps \<open>\<pi>\<close>: it only adds states to the trace, and \<open>\<pi>\<close> has on each of them
  the value it had when the part began.
\<close>

definition keeps :: "(session \<Rightarrow> 'a) \<Rightarrow> run \<Rightarrow> run \<Rightarrow> bool" where
  "keeps \<pi> st st' = (\<exists>new. trace st' = trace st @ new \<and> (\<forall>x \<in> set new. \<pi> x = \<pi> (fst st)))"

text \<open>
  The progress that the specification gives after \<open>received\<close> bytes, in the arithmetic of
  JavaScript: \<open>min(100, received / contentLength * 100)\<close>.
\<close>

definition progress_at :: "jsnum \<Rightarrow> jsnum \<Rightarrow> jsnum" where
  "progress_at received contentLength =
     js_min (Fin 100) (js_mul (js_div received contentLength) (Fin 100))"

section \<open>Example runs\<close>

text \<open>
  The run of the examples of the specification: five probes that take 40, 42, 38, 41 and
  200 ms, and a download of 10,000,000 bytes in two chunks that takes four seconds.
\<close>

definition example_probes :: "nat \<Rightarrow> rat \<times> rat option" where
  "example_probes i = (case drop i [40, 42, 38, 41, 200] of [] \<Rightarrow> (0, None) | x # xs \<Rightarrow> (0, Some x))"

definition example_reader :: "nat \<Rightarrow> read_result" where
  "example_reader i = (if i < 2 then Chunk 5000000 else Done)"

definition example_response :: response where
  "example_response = \<lparr>ok = True, content_length = None, body = Some example_reader\<rparr>"

definition example_env :: env where
  "example_env = \<lparr>pingProbe = example_probes, downloadStart = 0,
     downloadFetch = Some example_response,
     downloadEnd = 4000, downloadRandom = 1 / 2, uploadRandom = 1 / 2\<rparr>"

text \<open>A run without network: every request is rejected.\<close>

definition offline_env :: env where
  "offline_env = \<lparr>pingProbe = (\<lambda>i. (0, None)), downloadStart = 0, downloadFetch = None,
     downloadEnd = 0, downloadRandom = 0, uploadRandom = 0\<rparr>"

text \<open>The session that the run without network leaves, from which the next run starts.\<close>

definition finished :: session where
  "finished = \<lparr>downloadSpeed = Some (Fin 50), uploadSpeed = Some (Fin 10), ping = None,
     jitter = None, ipInfo = None, isTesting = False, progress = Fin 100, phase = Complete,
     error = None\<rparr>"

text \<open>A download whose third read is rejected.\<close>

definition broken_reader :: "nat \<Rightarrow> read_result" where
  "broken_reader i = (if i < 2 then Chunk 1000 else ReadRejected)"

definition broken_response :: response where
  "broken_response = \<lparr>ok = True, content_length = None, body = Some broken_reader\<rparr>"

definition broken_env :: env where
  "broken_env = example_env\<lparr>downloadFetch := Some broken_response\<rparr>"

text \<open>A download of one chunk whose \<open>Content-Length\<close> is not a number.\<close>

definition short_reader :: "nat \<Rightarrow> read_result" where
  "short_reader i = (if i < 1 then Chunk 1000 else Done)"

definition nonnumeric_response :: response where
  "nonnumeric_response = \<lparr>ok = True, content_length = Some ''abc'', body = Some short_reader\<rparr>"

definition nonnumeric_env :: env where
  "nonnumeric_env = example_env\<lparr>downloadFetch := Some nonnumeric_response\<rparr>"

text \<open>A download whose body gives a chunk of 1000 bytes at every read.\<close>

definition endless_reader :: "nat \<Rightarrow> read_result" where
  "endless_reader i = Chunk 1000"

definition endless_response :: response where
  "endless_response = \<lparr>ok = True, content_length = None, body = Some endless_reader\<rparr>"

definition endless_env :: env where
  "endless_env = example_env\<lparr>downloadFetch := Some endless_response\<rparr>"

text \<open>
  Five probes whose elapsed times are the doubles that the literals 58.45, 28.47, 48.55,
  12.42 and 82.46 denote.
\<close>

definition rounding_samples :: "rat list" where
  "rounding_samples =
     [4113053097184461 / 70368744177664, 1001699073369047 / 35184372088832,
      3416402529825587 / 70368744177664, 6991838421492695 / 562949953421312,
      5802606644890173 / 70368744177664]"

definition rounding_probes :: "nat \<Rightarrow> rat \<times> rat option" where
  "rounding_probes i = (case drop i rounding_samples of [] \<Rightarrow> (0, None) | x # xs \<Rightarrow> (0, Some x))"

definition rounding_env :: env where
  "rounding_env = offline_env\<lparr>pingProbe := rounding_probes\<rparr>"

text \<open>A download of 8,847,360 bytes in one chunk that takes 1.08 seconds.\<close>

definition half_reader :: "nat \<Rightarrow> read_result" where
  "half_reader i = (if i < 1 then Chunk 8847360 else Done)"

definition half_response :: response where
  "half_response = \<lparr>ok = True, content_length = None, body = Some half_reader\<rparr>"

definition half_env :: env where
  "half_env = example_env\<lparr>downloadFetch := Some half_response, downloadEnd := 1080\<rparr>"

text \<open>
  A double below \<open>100 / 101\<close> whose product with 101 rounds to 100: the double that the
  literal 0.9900990099009901 denotes.
\<close>

definition near_top :: rat where
  "near_top = 1114752383012499 / 1125899906842624"

text \<open>A response of the lookup with the provider at the top level and no \<open>connection\<close>.\<close>

definition flat_response :: jsval where
  "flat_response = Obj [(''success'', Bool True), (''ip'', Str ''203.0.113.7''),
     (''isp'', Str ''Example Net'')]"

section \<open>Rounding\<close>

lemma pow2_powi: "pow2 n = 2 powi n"
proof (induction n rule: pow2.induct)
  case (1 n)
  show ?case
  proof (cases "n < 0")
    case True
    then have "pow2 n = 1 / pow2 (- n)" by (subst pow2.simps) simp
    also have "\<dots> = 1 / 2 powi (- n)" using 1(1)[OF True] by simp
    also have "\<dots> = 2 powi n" by (simp add: power_int_minus field_simps)
    finally show ?thesis .
  next
    case False
    show ?thesis
    proof (cases "n = 0")
      case True
      then show ?thesis by (subst pow2.simps) simp
    next
      case nz: False
      have h: "pow2 (n div 2) = 2 powi (n div 2)"
        using 1(2)[OF False nz] 1(3)[OF False nz] by (cases "even n") auto
      have sq: "sqr (2 powi (n div 2)) = (2::rat) powi (2 * (n div 2))"
        by (simp add: sqr_def power_int_add[symmetric])
      show ?thesis
      proof (cases "even n")
        case True
        then have "2 * (n div 2) = n" by auto
        then show ?thesis using False nz True h sq by (subst pow2.simps) simp
      next
        case odd: False
        then have "2 * (n div 2) + 1 = n" by presburger
        then have "(2::rat) powi n = 2 * 2 powi (2 * (n div 2))"
          by (metis add.commute power_int_add_1' zero_neq_numeral mult.commute)
        then show ?thesis using False nz odd h sq by (subst pow2.simps) simp
      qed
    qed
  qed
qed

lemma ilog2_int_bounds:
  "1 \<le> n \<Longrightarrow> 0 \<le> ilog2_int n \<and> 2 ^ nat (ilog2_int n) \<le> n \<and> n < 2 * 2 ^ nat (ilog2_int n)"
proof (induction n rule: ilog2_int.induct)
  case (1 n)
  show ?case
  proof (cases "n \<le> 1")
    case True
    with 1(2) have "n = 1" by simp
    then show ?thesis by (subst (1 2 3) ilog2_int.simps) simp
  next
    case False
    then have "1 \<le> n div 2" by simp
    from 1(1)[OF False this] have IH: "0 \<le> ilog2_int (n div 2)"
      "2 ^ nat (ilog2_int (n div 2)) \<le> n div 2" "n div 2 < 2 * 2 ^ nat (ilog2_int (n div 2))"
      by auto
    have eq: "ilog2_int n = 1 + ilog2_int (n div 2)" using False by (subst ilog2_int.simps) simp
    then have nat: "nat (ilog2_int n) = Suc (nat (ilog2_int (n div 2)))" using IH(1) by simp
    have d: "2 * (n div 2) \<le> n" "n \<le> 2 * (n div 2) + 1" by presburger+
    define t :: int where "t = 2 ^ nat (ilog2_int (n div 2))"
    have "t \<le> n div 2" "n div 2 < 2 * t" using IH by (simp_all add: t_def)
    then have "2 * t \<le> n" "n < 2 * (2 * t)" using d by linarith+
    then show ?thesis unfolding nat using IH(1) eq by (simp add: t_def)
  qed
qed

lemma ilog2_int_powi:
  assumes "1 \<le> n"
  shows "(2::rat) powi (ilog2_int n) \<le> of_int n" and "(of_int n :: rat) < 2 powi (ilog2_int n + 1)"
proof -
  from ilog2_int_bounds[OF assms] have b: "0 \<le> ilog2_int n" "2 ^ nat (ilog2_int n) \<le> n"
    "n < 2 * 2 ^ nat (ilog2_int n)" by auto
  have "(of_int (2 ^ nat (ilog2_int n)) :: rat) \<le> of_int n" using b(2) by (simp only: of_int_le_iff)
  then show "(2::rat) powi (ilog2_int n) \<le> of_int n" using b(1) by (simp add: power_int_def)
  have "(of_int n :: rat) < of_int (2 * 2 ^ nat (ilog2_int n))" using b(3) by (simp only: of_int_less_iff)
  then show "(of_int n :: rat) < 2 powi (ilog2_int n + 1)"
    using b(1) by (simp add: power_int_def nat_add_distrib)
qed

lemma ilog2_bounds:
  assumes "0 < x"
  shows "2 powi (ilog2 x) \<le> x" and "x < 2 powi (ilog2 x + 1)"
proof -
  obtain p q where pq: "quotient_of x = (p, q)" by (cases "quotient_of x")
  then have q: "0 < q" and x: "x = of_int p / of_int q"
    using quotient_of_denom_pos quotient_of_div by auto
  have p: "0 < p" using assms q x by (simp add: zero_less_divide_iff)
  let ?a = "ilog2_int p" and ?b = "ilog2_int q"
  have pa: "(2::rat) powi ?a \<le> of_int p" "(of_int p :: rat) < 2 powi (?a + 1)"
    using ilog2_int_powi[of p] p by auto
  have qb: "(2::rat) powi ?b \<le> of_int q" "(of_int q :: rat) < 2 powi (?b + 1)"
    using ilog2_int_powi[of q] q by auto
  have qpos: "(0::rat) < of_int q" using q by simp
  have up: "x < 2 powi (?a - ?b + 1)"
  proof -
    have "x * of_int q < 2 powi (?a + 1)" using pa(2) x qpos by simp
    also have "\<dots> = 2 powi (?a - ?b + 1) * 2 powi ?b" by (simp add: power_int_add[symmetric])
    also have "\<dots> \<le> 2 powi (?a - ?b + 1) * of_int q" using qb(1) by (intro mult_left_mono) simp_all
    finally show ?thesis using qpos by simp
  qed
  have lo: "2 powi (?a - ?b - 1) \<le> x"
  proof -
    have "(2::rat) powi (?a - ?b - 1) * of_int q \<le> 2 powi (?a - ?b - 1) * 2 powi (?b + 1)"
      using qb(2) by (intro mult_left_mono) simp_all
    also have "\<dots> = (2::rat) powi ?a" by (simp add: power_int_add[symmetric])
    also have "\<dots> \<le> x * of_int q" using pa(1) x qpos by simp
    finally show ?thesis using qpos by simp
  qed
  have e: "ilog2 x = (if 2 powi (?a - ?b) \<le> x then ?a - ?b else ?a - ?b - 1)"
    by (simp add: ilog2_def pq pow2_powi Let_def)
  show "2 powi (ilog2 x) \<le> x" using e lo by auto
  show "x < 2 powi (ilog2 x + 1)" using e up by (auto simp: not_le)
qed

lemma powi_less_D: "(2::rat) powi m < 2 powi n \<Longrightarrow> m < n"
proof (rule ccontr)
  assume a: "(2::rat) powi m < 2 powi n" and "\<not> m < n"
  then have "n \<le> m" by simp
  then have "(2::rat) powi n \<le> 2 powi m" by (intro power_int_increasing) simp_all
  with a show False by simp
qed

lemma ilog2_less: "0 < x \<Longrightarrow> x < 2 powi n \<Longrightarrow> ilog2 x < n"
proof -
  assume a: "0 < x" "x < 2 powi n"
  have "(2::rat) powi (ilog2 x) < 2 powi n" using ilog2_bounds(1)[OF a(1)] a(2) by simp
  then show ?thesis by (rule powi_less_D)
qed

lemma ilog2_ge: "0 < x \<Longrightarrow> 2 powi n \<le> x \<Longrightarrow> n \<le> ilog2 x"
proof -
  assume a: "0 < x" "2 powi n \<le> x"
  have "(2::rat) powi n < 2 powi (ilog2 x + 1)" using ilog2_bounds(2)[OF a(1)] a(2) by simp
  then have "n < ilog2 x + 1" by (rule powi_less_D)
  then show ?thesis by simp
qed

lemma rte_of_int: "rte (of_int k) = k"
  by (simp add: rte_def)

lemma rte_nonneg: "0 \<le> y \<Longrightarrow> 0 \<le> rte y"
  by (auto simp: rte_def Let_def)

lemma rte_less:
  assumes "y < of_int N - 1 / 2"
  shows "rte y < N"
proof -
  define k where "k = \<lfloor>y\<rfloor>"
  have k: "of_int k \<le> y" "y < of_int k + 1" using floor_correct[of y] by (simp_all add: k_def)
  have up: "rte y \<le> k + 1" by (auto simp: rte_def Let_def k_def)
  show ?thesis
  proof (cases "y - of_int k < 1 / 2")
    case True
    then have "rte y = k" by (simp add: rte_def Let_def k_def)
    moreover have "(of_int k :: rat) < of_int N" using k(1) assms by linarith
    ultimately show ?thesis by simp
  next
    case False
    then have "of_int k + 1 / 2 \<le> y" by simp
    then have "(of_int (k + 1) :: rat) < of_int N" using assms by simp
    then have "k + 1 < N" by (simp only: of_int_less_iff)
    then show ?thesis using up by simp
  qed
qed

lemma rte_error: "\<bar>of_int (rte y) - y\<bar> \<le> 1 / 2"
proof -
  define k where "k = \<lfloor>y\<rfloor>"
  have k: "of_int k \<le> y" "y < of_int k + 1" using floor_correct[of y] by (simp_all add: k_def)
  consider "y - of_int k < 1 / 2" | "1 / 2 < y - of_int k" | "y - of_int k = 1 / 2" by linarith
  then show ?thesis
  proof cases
    case 1
    then have "rte y = k" by (simp add: rte_def Let_def k_def)
    then show ?thesis using 1 k by simp
  next
    case 2
    then have "rte y = k + 1" by (simp add: rte_def Let_def k_def)
    then show ?thesis using 2 k by simp
  next
    case 3
    then have "rte y = k \<or> rte y = k + 1" by (simp add: rte_def Let_def k_def)
    then show ?thesis using 3 by auto
  qed
qed

lemma ulp_pos: "0 < ulp a"
  by (simp add: ulp_def pow2_powi)

lemma dbl_pos:
  assumes "0 < x"
  shows "dbl x =
     (let m = of_int (rte (x / ulp x)) * ulp x
      in if m = 0 then Fin 0 else if 1024 \<le> ilog2 m then PosInf else Fin m)"
  using assms by (simp add: dbl_def Let_def signed_zero_def signed_inf_def)

lemma dbl_bounded:
  assumes "0 < x" and "x < of_int M - 2 powi (b - 53)" and "(of_int M :: rat) \<le> 2 powi (b + 1)"
    and "- 1022 \<le> b" and "b \<le> 52"
  shows "\<exists>y. dbl x = Fin y \<and> 0 \<le> y \<and> y < of_int M \<and> \<bar>y - x\<bar> \<le> 2 powi (b - 53)"
proof -
  define k where "k = max (ilog2 x) (- 1022)"
  define u :: rat where "u = 2 powi (k - 52)"
  have u: "ulp x = u" by (simp add: ulp_def pow2_powi k_def u_def)
  have upos: "0 < u" by (simp add: u_def)
  have "(0::rat) < 2 powi (b - 53)" by simp
  then have "x < of_int M" using assms(2) by linarith
  then have "x < 2 powi (b + 1)" using assms(3) by simp
  then have "ilog2 x < b + 1" using assms(1) by (rule ilog2_less[rotated])
  then have kb: "k \<le> b" using assms(4) by (simp add: k_def)
  define N where "N = M * 2 ^ nat (52 - k)"
  have inv: "1 / u = 2 ^ nat (52 - k)"
  proof -
    have "1 / u = 2 powi (52 - k)" by (simp add: u_def power_int_diff)
    also have "\<dots> = 2 ^ nat (52 - k)" using kb assms(5) by (simp add: power_int_def)
    finally show ?thesis .
  qed
  have "(of_int N :: rat) = of_int M * (1 / u)" unfolding inv by (simp add: N_def)
  then have N: "(of_int N :: rat) = of_int M / u" by simp
  have half: "u / 2 \<le> 2 powi (b - 53)"
  proof -
    have "u / 2 = 2 powi (k - 53)" by (simp add: u_def power_int_diff)
    also have "\<dots> \<le> 2 powi (b - 53)" using kb by (intro power_int_increasing) simp_all
    finally show ?thesis .
  qed
  have "x < of_int M - u / 2" using assms(2) half by simp
  then have "x / u < of_int M / u - 1 / 2" using upos by (simp add: field_simps)
  then have "x / u < of_int N - 1 / 2" by (simp add: N)
  then have rN: "rte (x / u) < N" by (rule rte_less)
  have r0: "0 \<le> rte (x / u)" using assms(1) upos by (intro rte_nonneg) simp
  define m :: rat where "m = of_int (rte (x / u)) * u"
  have m0: "0 \<le> m" using r0 upos by (simp add: m_def)
  have "rte (x / u) \<le> N - 1" using rN by simp
  then have "(of_int (rte (x / u)) :: rat) \<le> of_int (N - 1)" by (simp only: of_int_le_iff)
  then have "m \<le> of_int (N - 1) * u" using upos by (simp add: m_def mult_right_mono)
  also have "\<dots> = of_int M - u" using upos by (simp add: N field_simps)
  finally have mM: "m < of_int M" using upos by simp
  have err: "\<bar>m - x\<bar> \<le> 2 powi (b - 53)"
  proof -
    have "\<bar>m - x\<bar> = \<bar>of_int (rte (x / u)) - x / u\<bar> * u"
      using upos by (simp add: m_def abs_mult[symmetric] field_simps)
    also have "\<dots> \<le> 1 / 2 * u" using rte_error[of "x / u"] upos by (intro mult_right_mono) simp_all
    also have "\<dots> \<le> 2 powi (b - 53)" using half by simp
    finally show ?thesis .
  qed
  have "dbl x = Fin m"
  proof (cases "m = 0")
    case True
    then show ?thesis using assms(1) by (simp add: dbl_pos u m_def Let_def)
  next
    case False
    then have mp: "0 < m" using m0 by simp
    have "m < 2 powi (b + 1)" using mM assms(3) by simp
    also have "\<dots> \<le> 2 powi 1024" using assms(5) by (intro power_int_increasing) simp_all
    finally have "ilog2 m < 1024" using mp by (intro ilog2_less) simp_all
    then show ?thesis using assms(1) False by (simp add: dbl_pos u m_def[symmetric] Let_def)
  qed
  then show ?thesis using m0 mM err by blast
qed

lemma dbl_exact:
  assumes "0 < x" and "x = of_int K * 2 powi j" and "x < 2 powi (j + 53)" and "- 1074 \<le> j"
    and "x < 2 powi 1024"
  shows "dbl x = Fin x"
proof -
  define k where "k = max (ilog2 x) (- 1022)"
  define u :: rat where "u = 2 powi (k - 52)"
  have u: "ulp x = u" by (simp add: ulp_def pow2_powi k_def u_def)
  have upos: "0 < u" by (simp add: u_def)
  have "ilog2 x < j + 53" using assms(1,3) by (intro ilog2_less)
  then have kj: "k - 52 \<le> j" using assms(4) by (simp add: k_def)
  have "x / u = of_int K * 2 powi (j - (k - 52))" by (simp add: assms(2) u_def power_int_diff)
  also have "\<dots> = of_int K * 2 ^ nat (j - (k - 52))" using kj by (simp add: power_int_def)
  also have "\<dots> = of_int (K * 2 ^ nat (j - (k - 52)))" by simp
  finally have "rte (x / u) = K * 2 ^ nat (j - (k - 52))" and q: "x / u = of_int (K * 2 ^ nat (j - (k - 52)))"
    by (simp_all only: rte_of_int)
  then have m: "of_int (rte (x / u)) * u = x" using upos by (simp add: field_simps)
  have "ilog2 x < 1024" using assms(1,5) by (intro ilog2_less)
  then show ?thesis using assms(1) by (simp add: dbl_pos u m Let_def)
qed

lemma dbl_int:
  assumes "0 < n" and "n < 2 ^ 53"
  shows "dbl (of_int n) = Fin (of_int n)"
proof (rule dbl_exact[where K = n and j = 0])
  show "(0::rat) < of_int n" using assms(1) by simp
  show "(of_int n :: rat) = of_int n * 2 powi 0" by simp
  have "(of_int n :: rat) < of_int (2 ^ 53)" using assms(2) by (simp only: of_int_less_iff)
  then show "(of_int n :: rat) < 2 powi (0 + 53)" by simp
  then have "(of_int n :: rat) < 2 powi 53" by simp
  also have "\<dots> \<le> 2 powi 1024" by (intro power_int_increasing) simp_all
  finally show "(of_int n :: rat) < 2 powi 1024" .
  show "- 1074 \<le> (0::int)" by simp
qed

lemma dbl_down_range:
  assumes "0 \<le> r" and "r < 1"
  shows "0 \<le> dbl_down r" and "dbl_down r \<le> 1 - 2 powi (- 53)" and "dbl_down r \<le> r"
    and "r - dbl_down r < 2 powi (- 53)"
proof -
  have "0 \<le> dbl_down r \<and> dbl_down r \<le> 1 - 2 powi (- 53) \<and> dbl_down r \<le> r \<and>
      r - dbl_down r < 2 powi (- 53)"
  proof (cases "r = 0")
    case True
    then show ?thesis by (simp add: dbl_down_def)
  next
    case False
    then have rp: "0 < r" using assms(1) by simp
    define k where "k = max (ilog2 r) (- 1022)"
    define u :: rat where "u = 2 powi (k - 52)"
    have u: "ulp r = u" by (simp add: ulp_def pow2_powi k_def u_def)
    have upos: "0 < u" by (simp add: u_def)
    have "r < 2 powi 0" using assms(2) by simp
    then have e: "ilog2 r < 0" using rp by (intro ilog2_less)
    then have k1: "k \<le> - 1" by (simp add: k_def)
    define d where "d = of_int \<lfloor>r / u\<rfloor> * u"
    have dd: "dbl_down r = d" using rp by (simp add: dbl_down_def u d_def)
    have d0: "0 \<le> d" using rp upos by (simp add: d_def)
    have "of_int \<lfloor>r / u\<rfloor> * u \<le> r / u * u" using upos by (intro mult_right_mono) simp_all
    then have dr: "d \<le> r" using upos by (simp add: d_def)
    have "r / u < of_int \<lfloor>r / u\<rfloor> + 1" by linarith
    then have "r / u * u < (of_int \<lfloor>r / u\<rfloor> + 1) * u" using upos by (intro mult_strict_right_mono)
    then have "r < d + u" using upos by (simp add: d_def algebra_simps)
    moreover have u53: "u \<le> 2 powi (- 53)" unfolding u_def using k1 by (intro power_int_increasing) simp_all
    ultimately have err: "r - d < 2 powi (- 53)" by simp
    have top: "d \<le> 1 - 2 powi (- 53)"
    proof (cases "k = - 1")
      case True
      then have uu: "u = 2 powi (- 53)" by (simp add: u_def)
      have "r / u < 2 ^ 53" using assms(2) by (simp add: uu power_int_minus field_simps)
      then have "\<lfloor>r / u\<rfloor> < 2 ^ 53" by (simp add: floor_less_iff)
      then have "\<lfloor>r / u\<rfloor> \<le> 2 ^ 53 - 1" by simp
      then have "(of_int \<lfloor>r / u\<rfloor> :: rat) \<le> of_int (2 ^ 53 - 1)" by (simp only: of_int_le_iff)
      then have "d \<le> of_int (2 ^ 53 - 1) * u" using upos by (simp add: d_def mult_right_mono)
      also have "\<dots> = 1 - 2 powi (- 53)" by (simp add: uu power_int_minus field_simps)
      finally show ?thesis .
    next
      case False
      then have "k \<le> - 2" using k1 by simp
      then have "ilog2 r + 1 \<le> - 1" by (simp add: k_def)
      then have "(2::rat) powi (ilog2 r + 1) \<le> 2 powi (- 1)" by (intro power_int_increasing) simp_all
      then have "r < 1 / 2" using ilog2_bounds(2)[OF rp] by (simp add: power_int_minus)
      then have "d < 1 / 2" using dr by simp
      moreover have "(2::rat) powi (- 53) \<le> 2 powi (- 1)" by (intro power_int_increasing) simp_all
      then have "(2::rat) powi (- 53) \<le> 1 / 2" by (simp add: power_int_minus)
      ultimately show ?thesis by simp
    qed
    show ?thesis using d0 top dr err by (simp add: dd)
  qed
  then show "0 \<le> dbl_down r" and "dbl_down r \<le> 1 - 2 powi (- 53)" and "dbl_down r \<le> r"
    and "r - dbl_down r < 2 powi (- 53)" by simp_all
qed

lemma dbl_error:
  assumes "0 < x"
  shows "(dbl x = PosInf \<and> 2 powi 1023 \<le> x) \<or>
         (\<exists>y. dbl x = Fin y \<and> 0 \<le> y \<and> \<bar>y - x\<bar> \<le> x * 2 powi (- 53) + 2 powi (- 1075))"
proof -
  define k where "k = max (ilog2 x) (- 1022)"
  define u :: rat where "u = 2 powi (k - 52)"
  have u: "ulp x = u" by (simp add: ulp_def pow2_powi k_def u_def)
  have upos: "0 < u" by (simp add: u_def)
  have half: "u / 2 = 2 powi (k - 53)" by (simp add: u_def power_int_diff)
  define m :: rat where "m = of_int (rte (x / u)) * u"
  have "0 \<le> rte (x / u)" using assms upos by (intro rte_nonneg) simp
  then have m0: "0 \<le> m" using upos by (simp add: m_def)
  have err: "\<bar>m - x\<bar> \<le> u / 2"
  proof -
    have "\<bar>m - x\<bar> = \<bar>of_int (rte (x / u)) - x / u\<bar> * u"
      using upos by (simp add: m_def abs_mult[symmetric] field_simps)
    also have "\<dots> \<le> 1 / 2 * u" using rte_error[of "x / u"] upos by (intro mult_right_mono) simp_all
    finally show ?thesis by simp
  qed
  have small: "u / 2 \<le> x * 2 powi (- 53) + 2 powi (- 1075)"
  proof (cases "- 1022 \<le> ilog2 x")
    case True
    then have "k = ilog2 x" by (simp add: k_def)
    moreover have "(2::rat) powi (ilog2 x + - 53) = 2 powi (ilog2 x) * 2 powi (- 53)"
      by (rule power_int_add) simp
    ultimately have "u / 2 = 2 powi (ilog2 x) * 2 powi (- 53)" by (simp add: half)
    also have "\<dots> \<le> x * 2 powi (- 53)" using ilog2_bounds(1)[OF assms] by (intro mult_right_mono) simp_all
    finally have "u / 2 \<le> x * 2 powi (- 53)" .
    moreover have "(0::rat) \<le> 2 powi (- 1075)" by simp
    ultimately show ?thesis by linarith
  next
    case False
    then have "k = - 1022" by (simp add: k_def)
    then have "u / 2 = 2 powi (- 1075)" by (simp add: half)
    moreover have "0 \<le> x * 2 powi (- 53)" using assms by simp
    ultimately show ?thesis by linarith
  qed
  have d: "dbl x = (if m = 0 then Fin 0 else if 1024 \<le> ilog2 m then PosInf else Fin m)"
    using assms by (simp add: dbl_pos u m_def Let_def)
  show ?thesis
  proof (cases "m \<noteq> 0 \<and> 1024 \<le> ilog2 m")
    case True
    then have mp: "0 < m" using m0 by simp
    have "2 powi 1023 \<le> x"
    proof (rule ccontr)
      assume "\<not> 2 powi 1023 \<le> x"
      then have x: "x < 2 powi 1023" by simp
      then have "ilog2 x < 1023" using assms by (intro ilog2_less)
      then have "k - 53 \<le> 1023" by (simp add: k_def)
      then have "(2::rat) powi (k - 53) \<le> 2 powi 1023" by (intro power_int_increasing) simp_all
      then have "u / 2 \<le> 2 powi 1023" by (simp add: half)
      then have "m < 2 powi 1023 + 2 powi 1023" using err x by linarith
      also have "\<dots> = 2 powi 1024" by (simp add: power_int_add[of 2 1023 1, simplified])
      finally have "ilog2 m < 1024" using mp by (intro ilog2_less)
      then show False using True by simp
    qed
    then show ?thesis using True d by simp
  next
    case False
    then have "dbl x = Fin m" using d by auto
    then show ?thesis using m0 err small by (intro disjI2 exI[of _ m]) linarith
  qed
qed

lemma random_between_range:
  assumes r: "0 \<le> r" "r < 1" and M: "M = high - low + 1"
    and b: "0 \<le> b" "b \<le> 51" "(2::rat) powi b < of_int M" "(of_int M :: rat) \<le> 2 powi (b + 1)"
    and low: "0 < low" and high: "high < 2 ^ 53"
  shows "\<exists>k. random_between low high r = Fin (of_int k) \<and> low \<le> k \<and> k \<le> high \<and>
           of_int (k - low) / of_int M - 2 powi (- 52) \<le> r \<and>
           r < of_int (k - low + 1) / of_int M + 2 powi (- 52)"
proof -
  define d where "d = dbl_down r"
  define e53 :: rat where "e53 = 2 powi (- 53)"
  have e53: "0 < e53" by (simp add: e53_def)
  have e52: "(2::rat) powi (- 52) = 2 * e53" by (simp add: e53_def power_int_minus)
  note dd = dbl_down_range[OF r, folded d_def e53_def]
  have "(0::rat) < 2 powi b" by simp
  then have Mpos: "(0::rat) < of_int M" using b(3) by linarith
  then have M1: "0 < M" by simp
  have t: "2 powi (b - 53) < of_int M * e53"
  proof -
    have "(2::rat) powi (b + - 53) = 2 powi b * 2 powi (- 53)" by (rule power_int_add) simp
    then have "(2::rat) powi (b - 53) = 2 powi b * e53" by (simp add: e53_def)
    also have "\<dots> < of_int M * e53" using b(3) e53 by (intro mult_strict_right_mono)
    finally show ?thesis .
  qed
  have key: "\<exists>q. js_floor (js_mul (Fin d) (Fin (of_int M))) = Fin (of_int q) \<and> 0 \<le> q \<and> q < M \<and>
      of_int q / of_int M - e53 \<le> d \<and> d < of_int (q + 1) / of_int M + e53"
  proof (cases "d = 0")
    case True
    have "js_floor (js_mul (Fin d) (Fin (of_int M))) = Fin (of_int 0)"
      using True M1 by (simp add: js_mul_def js_floor_def is_nan_def is_inf_def is_zero_def signed_zero_def)
    moreover have "of_int 0 / of_int M - e53 \<le> d" using True e53 by simp
    moreover have "d < of_int (0 + 1) / of_int M + e53" using True e53 Mpos
      by (simp add: add_pos_pos)
    ultimately show ?thesis using M1 by blast
  next
    case False
    then have dpos: "0 < d" using dd(1) by simp
    define x where "x = d * of_int M"
    have xpos: "0 < x" using dpos Mpos by (simp add: x_def)
    have "x \<le> (1 - e53) * of_int M" unfolding x_def using dd(2) Mpos by (intro mult_right_mono) simp_all
    also have "\<dots> = of_int M - of_int M * e53" by (simp add: algebra_simps)
    also have "\<dots> < of_int M - 2 powi (b - 53)" using t by simp
    finally have xM: "x < of_int M - 2 powi (b - 53)" .
    from dbl_bounded[OF xpos xM b(4)] b(1,2) obtain y where
      y: "dbl x = Fin y" "0 \<le> y" "y < of_int M" "\<bar>y - x\<bar> \<le> 2 powi (b - 53)" by auto
    define q where "q = \<lfloor>y\<rfloor>"
    have q0: "0 \<le> q" using y(2) by (simp add: q_def)
    have qM: "q < M" using y(3) by (simp add: q_def floor_less_iff)
    have qy: "of_int q \<le> y" "y < of_int q + 1" using floor_correct[of y] by (simp_all add: q_def)
    have mul: "js_mul (Fin d) (Fin (of_int M)) = Fin y"
      using False M1 y(1) by (simp add: js_mul_def is_nan_def is_inf_def is_zero_def x_def)
    have fl: "js_floor (js_mul (Fin d) (Fin (of_int M))) = Fin (of_int q)"
      by (simp add: mul js_floor_def q_def)
    have "of_int q < (d + e53) * of_int M" using qy(1) y(4) t by (simp add: x_def algebra_simps abs_le_iff)
    then have "of_int q / of_int M < d + e53" using Mpos by (simp add: pos_divide_less_eq)
    then have lo: "of_int q / of_int M - e53 \<le> d" by simp
    have "(d - e53) * of_int M < of_int (q + 1)" using qy(2) y(4) t by (simp add: x_def algebra_simps abs_le_iff)
    then have "d - e53 < of_int (q + 1) / of_int M" using Mpos by (simp add: pos_less_divide_eq)
    then have hi: "d < of_int (q + 1) / of_int M + e53" by simp
    show ?thesis using fl q0 qM lo hi by blast
  qed
  then obtain q where q: "js_floor (js_mul (Fin d) (Fin (of_int M))) = Fin (of_int q)" "0 \<le> q" "q < M"
    "of_int q / of_int M - e53 \<le> d" "d < of_int (q + 1) / of_int M + e53" by blast
  have pos: "0 < q + low" using q(2) low by simp
  have "q + low < 2 ^ 53" using q(3) M high by simp
  from dbl_int[OF pos this] have "dbl (of_int q + of_int low) = Fin (of_int (q + low))" by simp
  moreover have "(of_int q :: rat) + of_int low \<noteq> 0" using pos by (metis of_int_0_eq_iff of_int_add less_irrefl)
  ultimately have res: "random_between low high r = Fin (of_int (q + low))"
    using q(1) by (simp add: random_between_def M d_def js_add_def is_nan_def is_inf_def)
  have "of_int q / of_int M - 2 * e53 \<le> r" using q(4) dd(3) e53 by linarith
  then have "of_int (q + low - low) / of_int M - 2 powi (- 52) \<le> r" unfolding e52 by simp
  moreover have "r < of_int (q + 1) / of_int M + 2 * e53" using q(5) dd(4) by linarith
  then have "r < of_int (q + low - low + 1) / of_int M + 2 powi (- 52)" unfolding e52 by simp
  moreover have "low \<le> q + low" "q + low \<le> high" using q(2,3) M by simp_all
  ultimately show ?thesis using res by blast
qed

lemma js_min_Fin: "js_min (Fin a) (Fin b) = Fin (min a b)"
  by (simp add: js_min_def js_less_def is_nan_def min_def)

lemma js_min_PosInf: "js_min (Fin a) PosInf = Fin a"
  by (simp add: js_min_def js_less_def is_nan_def)

lemma js_mul_pos: "0 < a \<Longrightarrow> 0 < b \<Longrightarrow> js_mul (Fin a) (Fin b) = dbl (a * b)"
  by (simp add: js_mul_def is_nan_def is_inf_def is_zero_def)

lemma js_div_pos: "0 < a \<Longrightarrow> 0 < b \<Longrightarrow> js_div (Fin a) (Fin b) = dbl (a / b)"
  by (simp add: js_div_def is_nan_def is_inf_def is_zero_def)

lemma progress_at_bound:
  assumes "0 < c" and "0 \<le> received"
  shows "\<exists>p. progress_at (Fin received) (Fin c) = Fin p \<and>
           \<bar>p - min 100 (received / c * 100)\<bar> \<le> 2 powi (- 43)"
proof (cases "received = 0")
  case True
  then have "progress_at (Fin received) (Fin c) = Fin 0" using assms(1)
    by (simp add: progress_at_def js_div_def js_mul_def js_min_Fin is_nan_def is_inf_def
        is_zero_def signed_zero_def)
  then show ?thesis using True by simp
next
  case False
  define q where "q = received / c"
  let ?goal = "\<exists>p. progress_at (Fin received) (Fin c) = Fin p \<and> \<bar>p - min 100 (q * 100)\<bar> \<le> 2 powi (- 43)"
  have qpos: "0 < q" using False assms by (simp add: q_def)
  have rpos: "0 < received" using False assms by simp
  define e53 :: rat where "e53 = 2 powi (- 53)"
  define e1075 :: rat where "e1075 = 2 powi (- 1075)"
  have e53: "e53 = 1 / 9007199254740992" by (simp add: e53_def power_int_minus)
  have "(2::rat) powi (- 1075) \<le> 2 powi (- 60)" by (intro power_int_increasing) simp_all
  then have e1075: "0 < e1075" "e1075 \<le> 1 / 1152921504606846976"
    by (simp_all add: e1075_def power_int_minus)
  have e43: "(2::rat) powi (- 43) = 1 / 8796093022208" by (simp add: power_int_minus)
  have div: "js_div (Fin received) (Fin c) = dbl q" using rpos assms(1) by (simp add: js_div_pos q_def)
  from dbl_error[OF qpos] have ?goal
  proof
    assume a: "dbl q = PosInf \<and> 2 powi 1023 \<le> q"
    have "(2::rat) powi 0 \<le> 2 powi 1023" by (intro power_int_increasing) simp_all
    then have "1 \<le> q" using a by simp
    then have "min 100 (q * 100) = 100" by simp
    moreover have "progress_at (Fin received) (Fin c) = Fin 100"
      using a by (simp add: progress_at_def div js_mul_def js_min_PosInf is_nan_def is_inf_def is_zero_def
          signed_inf_def)
    ultimately show ?goal by simp
  next
    assume "\<exists>y. dbl q = Fin y \<and> 0 \<le> y \<and> \<bar>y - q\<bar> \<le> q * 2 powi (- 53) + 2 powi (- 1075)"
    then obtain q' where q': "dbl q = Fin q'" "0 \<le> q'" "\<bar>q' - q\<bar> \<le> q * e53 + e1075"
      unfolding e53_def e1075_def by blast
    show ?goal
    proof (cases "q' = 0")
      case True
      then have "progress_at (Fin received) (Fin c) = Fin 0"
        by (simp add: progress_at_def div q'(1) js_mul_def js_min_Fin is_nan_def is_inf_def is_zero_def
            signed_zero_def)
      moreover have "q * 100 \<le> 1 / 8796093022208" using q'(3) True e1075 qpos by (simp add: e53)
      then have "\<bar>0 - min 100 (q * 100)\<bar> \<le> 2 powi (- 43)" using qpos by (simp add: e43 min_def)
      ultimately show ?thesis by simp
    next
      case False
      then have q'pos: "0 < q'" using q'(2) by simp
      define z where "z = q' * 100"
      have zpos: "0 < z" using q'pos by (simp add: z_def)
      have mul: "js_mul (dbl q) (Fin 100) = dbl z" using q'pos by (simp add: q'(1) js_mul_pos z_def)
      from dbl_error[OF zpos] show ?thesis
      proof
        assume a: "dbl z = PosInf \<and> 2 powi 1023 \<le> z"
        have "(2::rat) powi 10 \<le> 2 powi 1023" by (intro power_int_increasing) simp_all
        then have "1024 \<le> z" using a by simp
        then have "10 \<le> q'" by (simp add: z_def)
        then have "1 \<le> q" using q'(3) e1075 by (simp add: e53 abs_le_iff)
        then have "min 100 (q * 100) = 100" by simp
        moreover have "progress_at (Fin received) (Fin c) = Fin 100"
          using a by (simp add: progress_at_def div mul js_min_PosInf)
        ultimately show ?thesis by simp
      next
        assume "\<exists>y. dbl z = Fin y \<and> 0 \<le> y \<and> \<bar>y - z\<bar> \<le> z * 2 powi (- 53) + 2 powi (- 1075)"
        then obtain p' where p': "dbl z = Fin p'" "0 \<le> p'" "\<bar>p' - z\<bar> \<le> z * e53 + e1075"
          unfolding e53_def e1075_def by blast
        have pr: "progress_at (Fin received) (Fin c) = Fin (min 100 p')"
          by (simp add: progress_at_def div mul p'(1) js_min_Fin)
        show ?thesis
        proof (cases "2 \<le> q")
          case True
          then have "3 / 2 \<le> q'" using q'(3) e1075 by (simp add: e53 abs_le_iff)
          then have "150 \<le> z" by (simp add: z_def)
          then have "100 \<le> p'" using p'(3) e1075 by (simp add: e53 abs_le_iff)
          then have "min 100 p' = 100" by simp
          moreover have "min 100 (q * 100) = 100" using True by simp
          ultimately show ?thesis by (simp add: pr)
        next
          case False
          then have q2: "q < 2" by simp
          have f1: "q' - q \<le> q / 9007199254740992 + e1075" "q - q' \<le> q / 9007199254740992 + e1075"
            using q'(3) by (simp_all add: e53 abs_le_iff)
          have f2: "p' - q' * 100 \<le> q' * 100 / 9007199254740992 + e1075"
            "q' * 100 - p' \<le> q' * 100 / 9007199254740992 + e1075"
            using p'(3) by (simp_all add: e53 z_def abs_le_iff)
          have "p' - q * 100 \<le> 1 / 8796093022208" "q * 100 - p' \<le> 1 / 8796093022208"
            using f1 f2 q2 qpos e1075 by linarith+
          then have "\<bar>p' - q * 100\<bar> \<le> 1 / 8796093022208" by linarith
          moreover have "\<bar>min 100 p' - min 100 (q * 100)\<bar> \<le> \<bar>p' - q * 100\<bar>" by (simp add: min_def)
          ultimately have "\<bar>min 100 p' - min 100 (q * 100)\<bar> \<le> 2 powi (- 43)" by (simp only: e43)
          then show ?thesis by (simp add: pr)
        qed
      qed
    qed
  qed
  then show ?thesis unfolding q_def .
qed

lemma dbl_normal:
  assumes "2 powi (- 1022) \<le> x" and "x < 2 powi 1023"
  shows "\<exists>y. dbl x = Fin y \<and> x * (1 - 2 powi (- 53)) \<le> y \<and> y \<le> x * (1 + 2 powi (- 53))"
proof -
  have "(0::rat) < 2 powi (- 1022)" by simp
  then have xpos: "0 < x" using assms(1) by linarith
  have lo: "- 1022 \<le> ilog2 x" using xpos assms(1) by (rule ilog2_ge)
  define u :: rat where "u = 2 powi (ilog2 x - 52)"
  have u: "ulp x = u" using lo by (simp add: ulp_def pow2_powi u_def max_def)
  have upos: "0 < u" by (simp add: u_def)
  have "(2::rat) powi (ilog2 x + - 53) = 2 powi (ilog2 x) * 2 powi (- 53)"
    by (rule power_int_add) simp
  moreover have "u / 2 = 2 powi (ilog2 x - 53)" by (simp add: u_def power_int_diff)
  ultimately have "u / 2 = 2 powi (ilog2 x) * 2 powi (- 53)" by simp
  also have "\<dots> \<le> x * 2 powi (- 53)" using ilog2_bounds(1)[OF xpos] by (intro mult_right_mono) simp_all
  finally have half: "u / 2 \<le> x * 2 powi (- 53)" .
  define m :: rat where "m = of_int (rte (x / u)) * u"
  have err: "\<bar>m - x\<bar> \<le> u / 2"
  proof -
    have "\<bar>m - x\<bar> = \<bar>of_int (rte (x / u)) - x / u\<bar> * u"
      using upos by (simp add: m_def abs_mult[symmetric] field_simps)
    also have "\<dots> \<le> 1 / 2 * u" using rte_error[of "x / u"] upos by (intro mult_right_mono) simp_all
    finally show ?thesis by simp
  qed
  have "(2::rat) powi (- 53) \<le> 2 powi (- 1)" by (intro power_int_increasing) simp_all
  then have "x * 2 powi (- 53) \<le> x * (1 / 2)" using xpos by (intro mult_left_mono) (simp_all add: power_int_minus)
  then have mpos: "0 < m" using err half xpos by linarith
  have "ilog2 x < 1023" using xpos assms(2) by (rule ilog2_less)
  then have "ilog2 x - 53 \<le> 1023" by simp
  then have "(2::rat) powi (ilog2 x - 53) \<le> 2 powi 1023" by (intro power_int_increasing) simp_all
  then have "u / 2 \<le> 2 powi 1023" by (simp add: u_def power_int_diff)
  then have "m < 2 powi 1023 + 2 powi 1023" using err assms(2) by linarith
  also have "\<dots> = 2 powi 1024" by (simp add: power_int_add[of 2 1023 1, simplified])
  finally have "ilog2 m < 1024" using mpos by (intro ilog2_less)
  then have "dbl x = Fin m" using xpos mpos by (simp add: dbl_pos u m_def[symmetric] Let_def)
  moreover have "x - x * 2 powi (- 53) \<le> m" "m \<le> x + x * 2 powi (- 53)"
    using err half by linarith+
  then have "x * (1 - 2 powi (- 53)) \<le> m" "m \<le> x * (1 + 2 powi (- 53))"
    by (simp_all only: right_diff_distrib distrib_left mult_1_right)
  ultimately show ?thesis by blast
qed

lemma js_sub_Fin: "t1 \<noteq> t0 \<Longrightarrow> js_sub (Fin t1) (Fin t0) = dbl (t1 - t0)"
  by (simp add: js_sub_def js_neg_def js_add_def is_nan_def is_inf_def)

lemma rel_ratio:
  fixes a1 a2 a3 a4 :: rat
  assumes "1 - 1 / 2 ^ 53 \<le> a1" "a1 \<le> 1 + 1 / 2 ^ 53" "1 - 1 / 2 ^ 53 \<le> a2" "a2 \<le> 1 + 1 / 2 ^ 53"
    "1 - 1 / 2 ^ 53 \<le> a3" "a3 \<le> 1 + 1 / 2 ^ 53" "1 - 1 / 2 ^ 53 \<le> a4" "a4 \<le> 1 + 1 / 2 ^ 53"
  shows "\<bar>a3 * a4 / (a1 * a2) - 1\<bar> \<le> 1 / 2 ^ 50"
proof -
  define l :: rat where "l = 1 - 1 / 2 ^ 53"
  define h :: rat where "h = 1 + 1 / 2 ^ 53"
  have l: "0 < l" and h: "0 < h" by (simp_all add: l_def h_def)
  have pos: "0 < a1" "0 < a2" "0 < a3" "0 < a4" using assms by simp_all
  have n: "l * l \<le> a1 * a2" using assms(1,3) l unfolding l_def[symmetric] by (intro mult_mono) simp_all
  have m: "a3 * a4 \<le> h * h" using assms(6,8) pos h unfolding h_def[symmetric] by (intro mult_mono) simp_all
  have n': "a1 * a2 \<le> h * h" using assms(2,4) pos h unfolding h_def[symmetric] by (intro mult_mono) simp_all
  have m': "l * l \<le> a3 * a4" using assms(5,7) l unfolding l_def[symmetric] by (intro mult_mono) simp_all
  have up: "a3 * a4 / (a1 * a2) \<le> h * h / (l * l)"
    using m n l pos by (intro frac_le) simp_all
  have lo: "l * l / (h * h) \<le> a3 * a4 / (a1 * a2)"
    using m' n' l h pos by (intro frac_le) simp_all
  have "h * h / (l * l) \<le> 1 + 1 / 2 ^ 50" by (simp add: l_def h_def)
  moreover have "1 - 1 / 2 ^ 50 \<le> l * l / (h * h)" by (simp add: l_def h_def)
  ultimately show ?thesis using up lo by linarith
qed

lemma rel_factor:
  fixes x y :: rat
  assumes "0 < x" and "x * (1 - 2 powi (- 53)) \<le> y" and "y \<le> x * (1 + 2 powi (- 53))"
  shows "1 - 1 / 2 ^ 53 \<le> y / x" and "y / x \<le> 1 + 1 / 2 ^ 53"
  using assms by (simp_all add: power_int_minus pos_le_divide_eq pos_divide_le_eq mult.commute)

lemma mbps_bound:
  fixes n :: nat and t0 t1 :: rat
  assumes n: "0 < n" "n < 2 ^ 53" and d: "1 / 1024 \<le> t1 - t0" "t1 - t0 \<le> 2 ^ 40"
  shows "\<exists>v. js_div (js_div (js_mul (Fin (of_nat n)) (Fin 8))
                  (js_div (js_sub (Fin t1) (Fin t0)) (Fin 1000))) (Fin 1048576) = Fin v \<and> 0 < v \<and>
             \<bar>v - of_nat n * 8 / ((t1 - t0) / 1000) / 1048576\<bar>
               \<le> of_nat n * 8 / ((t1 - t0) / 1000) / 1048576 / 2 ^ 50"
proof -
  define D where "D = t1 - t0"
  have Dpos: "0 < D" using d(1) by (simp add: D_def)
  have p1023: "(2::rat) ^ 100 \<le> 2 powi 1023"
  proof -
    have "(2::rat) powi 100 \<le> 2 powi 1023" by (intro power_int_increasing) simp_all
    then show ?thesis by simp
  qed
  have m1022: "(2::rat) powi (- 1022) \<le> 1 / 2 ^ 100"
  proof -
    have "(2::rat) powi (- 1022) \<le> 2 powi (- 100)" by (intro power_int_increasing) simp_all
    then show ?thesis by (simp add: power_int_minus)
  qed
  have e53: "(2::rat) powi (- 53) = 1 / 2 ^ 53" by (simp add: power_int_minus)
  have rng: "\<exists>y. dbl x = Fin y \<and> x * (1 - 2 powi (- 53)) \<le> y \<and> y \<le> x * (1 + 2 powi (- 53))"
    if "1 / 2 ^ 100 \<le> x" "x < 2 ^ 100" for x
    using that m1022 p1023 by (intro dbl_normal) linarith+
  have half: "x / 2 \<le> y \<and> y \<le> 2 * x" if "0 < x" "x * (1 - 2 powi (- 53)) \<le> y" "y \<le> x * (1 + 2 powi (- 53))"
    for x y :: rat
    using that by (simp add: e53 algebra_simps)
  \<comment> \<open>the elapsed milliseconds\<close>
  from rng[of D] d obtain d' where d': "dbl D = Fin d'" "D * (1 - 2 powi (- 53)) \<le> d'"
    "d' \<le> D * (1 + 2 powi (- 53))" by (auto simp: D_def)
  have d'r: "D / 2 \<le> d'" "d' \<le> 2 * D" using half[OF Dpos d'(2,3)] by simp_all
  have d'pos: "0 < d'" using d'r Dpos by simp
  have sub: "js_sub (Fin t1) (Fin t0) = Fin d'" using Dpos d'(1) by (simp add: js_sub_Fin D_def)
  \<comment> \<open>the elapsed seconds\<close>
  define S where "S = d' / 1000"
  have Spos: "0 < S" using d'pos by (simp add: S_def)
  have Sr: "1 / 2 ^ 100 \<le> S" "S < 2 ^ 100" using d'r d by (simp_all add: S_def D_def)
  from rng[OF Sr] obtain s' where s': "dbl S = Fin s'" "S * (1 - 2 powi (- 53)) \<le> s'"
    "s' \<le> S * (1 + 2 powi (- 53))" by auto
  have s'r: "S / 2 \<le> s'" "s' \<le> 2 * S" using half[OF Spos s'(2,3)] by simp_all
  have s'pos: "0 < s'" using s'r Spos by simp
  have secs: "js_div (Fin d') (Fin 1000) = Fin s'" using d'pos s'(1) by (simp add: js_div_pos S_def)
  \<comment> \<open>the bits\<close>
  define N :: rat where "N = of_nat n * 8"
  have Npos: "0 < N" using n(1) by (simp add: N_def)
  have Nr: "8 \<le> N" "N < 2 ^ 56"
  proof -
    have "(1::rat) \<le> of_nat n" using n(1) by simp
    then show "8 \<le> N" by (simp add: N_def)
    have "(of_nat n :: rat) < of_nat (2 ^ 53)" using n(2) by (simp only: of_nat_less_iff)
    then show "N < 2 ^ 56" by (simp add: N_def)
  qed
  have "dbl N = Fin N"
  proof (rule dbl_exact[where K = "int n" and j = 3])
    show "0 < N" by (rule Npos)
    show "N = of_int (int n) * 2 powi 3" by (simp add: N_def)
    show "N < 2 powi (3 + 53)" using Nr(2) by simp
    show "- 1074 \<le> (3::int)" by simp
    have "(2::rat) powi 56 \<le> 2 powi 1024" by (intro power_int_increasing) simp_all
    then show "N < 2 powi 1024" using Nr(2) by simp
  qed
  then have bits: "js_mul (Fin (of_nat n)) (Fin 8) = Fin N" using n(1) by (simp add: js_mul_pos N_def)
  \<comment> \<open>the bits per second\<close>
  define B where "B = N / s'"
  have Bpos: "0 < B" using Npos s'pos by (simp add: B_def)
  have s'b: "1 / 2 ^ 23 \<le> s'" "s' \<le> 2 ^ 33" using s'r d'r d by (simp_all add: S_def D_def)
  have Blo: "8 / 2 ^ 33 \<le> B"
  proof -
    have "8 / 2 ^ 33 \<le> N / 2 ^ 33" using Nr(1) by (intro divide_right_mono) simp_all
    also have "\<dots> \<le> N / s'" using s'b(2) s'pos Npos by (intro divide_left_mono) simp_all
    finally show ?thesis unfolding B_def .
  qed
  have Bhi: "B \<le> 2 ^ 56 * 2 ^ 23"
  proof -
    have "N / s' \<le> N / (1 / 2 ^ 23)" using s'b(1) s'pos Npos by (intro divide_left_mono) simp_all
    also have "\<dots> = N * 2 ^ 23" by simp
    also have "\<dots> \<le> 2 ^ 56 * 2 ^ 23" using Nr(2) by (intro mult_right_mono) simp_all
    finally show ?thesis unfolding B_def .
  qed
  have Br: "1 / 2 ^ 100 \<le> B" "B < 2 ^ 100" using Blo Bhi by simp_all
  from rng[OF Br] obtain b' where b': "dbl B = Fin b'" "B * (1 - 2 powi (- 53)) \<le> b'"
    "b' \<le> B * (1 + 2 powi (- 53))" by auto
  have b'r: "B / 2 \<le> b'" "b' \<le> 2 * B" using half[OF Bpos b'(2,3)] by simp_all
  have b'pos: "0 < b'" using b'r Bpos by simp
  have bps: "js_div (Fin N) (Fin s') = Fin b'" using Npos s'pos b'(1) by (simp add: js_div_pos B_def)
  \<comment> \<open>the megabits per second\<close>
  define V where "V = b' / 1048576"
  have Vpos: "0 < V" using b'pos by (simp add: V_def)
  have Vr: "1 / 2 ^ 100 \<le> V" "V < 2 ^ 100" using Blo Bhi b'r by (simp_all add: V_def)
  from rng[OF Vr] obtain v where v: "dbl V = Fin v" "V * (1 - 2 powi (- 53)) \<le> v"
    "v \<le> V * (1 + 2 powi (- 53))" by auto
  have vr: "V / 2 \<le> v" using half[OF Vpos v(2,3)] by simp
  have vpos: "0 < v" using vr Vpos by simp
  have mb: "js_div (Fin b') (Fin 1048576) = Fin v" using b'pos v(1) by (simp add: js_div_pos V_def)
  have res: "js_div (js_div (js_mul (Fin (of_nat n)) (Fin 8))
                  (js_div (js_sub (Fin t1) (Fin t0)) (Fin 1000))) (Fin 1048576) = Fin v"
    by (simp only: bits sub secs bps mb)
  \<comment> \<open>the four relative errors\<close>
  define a1 where "a1 = d' / D"
  define a2 where "a2 = s' / S"
  define a3 where "a3 = b' / B"
  define a4 where "a4 = v / V"
  note r1 = rel_factor[OF Dpos d'(2,3), folded a1_def]
  note r2 = rel_factor[OF Spos s'(2,3), folded a2_def]
  note r3 = rel_factor[OF Bpos b'(2,3), folded a3_def]
  note r4 = rel_factor[OF Vpos v(2,3), folded a4_def]
  define E where "E = N / (D / 1000) / 1048576"
  have Epos: "0 < E" using Npos Dpos by (simp add: E_def)
  have "v = E * (a3 * a4 / (a1 * a2))"
    using Dpos d'pos s'pos b'pos Npos
    by (simp add: E_def a1_def a2_def a3_def a4_def V_def B_def S_def field_simps)
  then have "v - E = E * (a3 * a4 / (a1 * a2) - 1)" by (simp add: algebra_simps)
  then have "\<bar>v - E\<bar> = E * \<bar>a3 * a4 / (a1 * a2) - 1\<bar>" using Epos by (simp add: abs_mult)
  also have "\<dots> \<le> E * (1 / 2 ^ 50)"
    using rel_ratio[OF r1 r2 r3 r4] Epos by (intro mult_left_mono) simp_all
  finally have "\<bar>v - E\<bar> \<le> E / 2 ^ 50" by simp
  then show ?thesis using res vpos unfolding E_def N_def D_def by blast
qed

section \<open>Traces\<close>

lemma trace_set_state: "trace (set_state f st) = trace st @ [f (fst st)]"
  by (simp add: trace_def set_state_def)

lemma fst_set_state: "fst (set_state f st) = f (fst st)"
  by (simp add: set_state_def)

lemma last_trace: "last (trace st) = fst st"
  by (simp add: trace_def)

lemma trace_start: "trace (s, []) = [s]"
  by (simp add: trace_def)

lemmas setter_defs = setDownloadSpeed_def setUploadSpeed_def setPing_def setJitter_def
  setIsTesting_def setProgress_def setPhase_def setError_def

lemma keeps_refl: "keeps \<pi> st st"
  by (simp add: keeps_def)

lemma keeps_set_state: "\<pi> (f (fst st)) = \<pi> (fst st) \<Longrightarrow> keeps \<pi> st (set_state f st)"
  by (simp add: keeps_def trace_set_state)

lemma keeps_fst:
  assumes "keeps \<pi> st st'"
  shows "\<pi> (fst st') = \<pi> (fst st)"
proof -
  from assms obtain new where new: "trace st' = trace st @ new" "\<forall>x \<in> set new. \<pi> x = \<pi> (fst st)"
    by (auto simp: keeps_def)
  show ?thesis
  proof (cases new)
    case Nil
    with new have "last (trace st') = last (trace st)" by simp
    then show ?thesis by (simp add: last_trace)
  next
    case (Cons x xs)
    then have "last (trace st') = last new" using new by simp
    then have "fst st' \<in> set new" using Cons by (metis last_in_set last_trace list.distinct(1))
    then show ?thesis using new by blast
  qed
qed

lemma keeps_trans:
  assumes "keeps \<pi> a b" and "keeps \<pi> b c"
  shows "keeps \<pi> a c"
proof -
  from assms(1) obtain n1 where n1: "trace b = trace a @ n1" "\<forall>x \<in> set n1. \<pi> x = \<pi> (fst a)"
    by (auto simp: keeps_def)
  from assms(2) obtain n2 where n2: "trace c = trace b @ n2" "\<forall>x \<in> set n2. \<pi> x = \<pi> (fst b)"
    by (auto simp: keeps_def)
  have "\<pi> (fst b) = \<pi> (fst a)" using assms(1) by (rule keeps_fst)
  then have "\<forall>x \<in> set (n1 @ n2). \<pi> x = \<pi> (fst a)" using n1 n2 by auto
  moreover have "trace c = trace a @ (n1 @ n2)" using n1 n2 by simp
  ultimately show ?thesis unfolding keeps_def by blast
qed

lemma keeps_setProgress:
  "(\<And>s p. \<pi> (s\<lparr>progress := p\<rparr>) = \<pi> s) \<Longrightarrow> keeps \<pi> st (setProgress v st)"
  by (simp add: setProgress_def keeps_set_state)

lemma keeps_interval_ticks:
  assumes "\<And>s p. \<pi> (s\<lparr>progress := p\<rparr>) = \<pi> s"
  shows "keeps \<pi> st (interval_ticks n st)"
proof (induction n st rule: interval_ticks.induct)
  case (1 n st)
  let ?st' = "setProgress (Fin (of_nat (n + 5))) st"
  have step: "keeps \<pi> st ?st'" using assms by (rule keeps_setProgress)
  show ?case
  proof (cases "n + 5 \<ge> 100")
    case True
    then show ?thesis using step by (subst interval_ticks.simps) (simp add: Let_def)
  next
    case False
    then have "keeps \<pi> ?st' (interval_ticks (n + 5) ?st')" using 1 by simp
    then have "keeps \<pi> st (interval_ticks (n + 5) ?st')" using step keeps_trans by blast
    then show ?thesis using False by (subst interval_ticks.simps) (simp add: Let_def)
  qed
qed

lemma keeps_read_loop:
  assumes ins: "\<And>s p. \<pi> (s\<lparr>progress := p\<rparr>) = \<pi> s"
    and run: "read_loop reader cl i rl st = Some (r, st')"
  shows "keeps \<pi> st st'"
proof -
  have "keeps \<pi> st (snd (r, st'))"
  proof (rule read_loop.raw_induct[where P = "\<lambda>reader cl i rl st y. keeps \<pi> st (snd y)", OF _ run])
    fix rec reader cl i rl st y
    assume IH: "\<And>reader cl i rl st y. rec reader cl i rl st = Some y \<Longrightarrow> keeps \<pi> st (snd y)"
      and eq: "(case reader i of
                  Chunk n \<Rightarrow> rec reader cl (Suc i) (js_add rl (dbl (of_nat n)))
                    (setProgress (js_min (Fin 100) (js_mul (js_div (js_add rl (dbl (of_nat n))) cl) (Fin 100))) st)
                | Done \<Rightarrow> Some (Inr rl, st)
                | ReadRejected \<Rightarrow> Some (Inl ReadFailed, st)) = Some y"
    show "keeps \<pi> st (snd y)"
    proof (cases "reader i")
      case (Chunk n)
      let ?st = "setProgress (js_min (Fin 100) (js_mul (js_div (js_add rl (dbl (of_nat n))) cl) (Fin 100))) st"
      from eq Chunk have "rec reader cl (Suc i) (js_add rl (dbl (of_nat n))) ?st = Some y" by simp
      then have "keeps \<pi> ?st (snd y)" by (rule IH)
      moreover have "keeps \<pi> st ?st" using ins by (rule keeps_setProgress)
      ultimately show ?thesis using keeps_trans by blast
    next
      case Done
      with eq show ?thesis by (auto simp: keeps_refl)
    next
      case ReadRejected
      with eq show ?thesis by (auto simp: keeps_refl)
    qed
  qed
  then show ?thesis by simp
qed

lemma keeps_download_catch:
  assumes "\<And>s v. \<pi> (s\<lparr>error := v\<rparr>) = \<pi> s"
  shows "keeps \<pi> st (snd (download_catch st))"
  using assms by (simp add: download_catch_def setError_def keeps_set_state)

lemma keeps_runDownloadTest:
  assumes insp: "\<And>s p. \<pi> (s\<lparr>progress := p\<rparr>) = \<pi> s"
    and inse: "\<And>s v. \<pi> (s\<lparr>error := v\<rparr>) = \<pi> s"
    and run: "runDownloadTest e st = Some (v, st')"
  shows "keeps \<pi> st st'"
proof (cases "downloadFetch e")
  case None
  with run have "st' = interval_ticks 0 st" by (simp add: runDownloadTest_def Let_def)
  then show ?thesis using insp by (simp add: keeps_interval_ticks)
next
  case (Some resp)
  show ?thesis
  proof (cases "ok resp")
    case False
    with run Some have "st' = interval_ticks 0 st" by (simp add: runDownloadTest_def Let_def)
    then show ?thesis using insp by (simp add: keeps_interval_ticks)
  next
    case True
    show ?thesis
    proof (cases "body resp")
      case None
      with run Some True have "st' = snd (download_catch st)"
        by (auto simp: runDownloadTest_def Let_def)
      then show ?thesis using inse by (simp add: keeps_download_catch)
    next
      case (Some reader)
      let ?lp = "read_loop reader (contentLength_of (content_length resp)) 0 (Fin 0) st"
      from run \<open>downloadFetch e = Some resp\<close> True Some obtain r st1 where lp: "?lp = Some (r, st1)"
        by (auto simp: runDownloadTest_def Let_def split: option.splits)
      have k1: "keeps \<pi> st st1" using insp lp by (rule keeps_read_loop)
      show ?thesis
      proof (cases r)
        case (Inl err)
        with run \<open>downloadFetch e = Some resp\<close> True Some lp have "st' = snd (download_catch st1)"
          by (auto simp: runDownloadTest_def Let_def)
        then have "keeps \<pi> st1 st'" using inse by (simp add: keeps_download_catch)
        then show ?thesis using k1 keeps_trans by blast
      next
        case (Inr n)
        with run \<open>downloadFetch e = Some resp\<close> True Some lp have "st' = st1"
          by (auto simp: runDownloadTest_def Let_def)
        then show ?thesis using k1 by simp
      qed
    qed
  qed
qed
lemma keeps_runPingTest:
  assumes "\<And>s v. \<pi> (s\<lparr>ping := v\<rparr>) = \<pi> s" and "\<And>s v. \<pi> (s\<lparr>jitter := v\<rparr>) = \<pi> s"
  shows "keeps \<pi> st (runPingTest e st)"
proof -
  have a: "keeps \<pi> st (setPing v st)" for v st
    using assms(1) by (simp add: setPing_def keeps_set_state)
  have b: "keeps \<pi> st (setJitter v st)" for v st
    using assms(2) by (simp add: setJitter_def keeps_set_state)
  show ?thesis
    unfolding runPingTest_def Let_def
    using a b keeps_trans keeps_refl by (cases "0 < length (ping_loop (pingProbe e) 0 [])") (simp_all, blast)
qed

lemma keepsD:
  assumes "keeps \<pi> st st'"
  obtains new where "trace st' = trace st @ new" and "\<forall>x \<in> set new. \<pi> x = \<pi> (fst st)"
    and "\<pi> (fst st') = \<pi> (fst st)"
  using assms keeps_fst[OF assms] unfolding keeps_def by blast

lemma runTest_unfold:
  "runTest e s =
     (case runDownloadTest e (setProgress (Fin 0) (setPhase Download (runPingTest e (start_run s)))) of
        None \<Rightarrow> None
      | Some (dl, st) \<Rightarrow> Some (finish_run e dl st))"
  by (simp add: runTest_def start_run_def finish_run_def runUploadTest_def Let_def split: option.splits prod.splits)

lemma trace_start_run:
  "\<exists>R. trace (start_run s) = s # R @ [fst (start_run s)] \<and> R \<noteq> [] \<and> hd R = s\<lparr>isTesting := True\<rparr> \<and>
     (\<forall>x \<in> set R. phase x = phase s \<and> isTesting x)"
  by (simp add: start_run_def setter_defs trace_set_state fst_set_state trace_start)

lemma fst_start_run:
  "fst (start_run s) = s\<lparr>isTesting := True, error := None, downloadSpeed := None, uploadSpeed := None,
     ping := None, jitter := None, progress := Fin 0, phase := Ping\<rparr>"
  by (simp add: start_run_def setter_defs fst_set_state)

lemma trace_start_run_clearing: "trace (start_run s) = clearing s @ [fst (start_run s)]"
  by (simp add: start_run_def setter_defs trace_set_state fst_set_state trace_start clearing_def)

lemma interval_ticks_progress:
  "n < 100 \<Longrightarrow> 5 dvd n \<Longrightarrow> progress (fst (interval_ticks n st)) = Fin 100"
proof (induction n st rule: interval_ticks.induct)
  case (1 n st)
  show ?case
  proof (cases "n + 5 \<ge> 100")
    case True
    with 1(2,3) have "n + 5 = 100" by presburger
    then show ?thesis
      by (subst interval_ticks.simps) (simp add: Let_def setProgress_def fst_set_state)
  next
    case False
    then have "n + 5 < 100" by simp
    moreover have "5 dvd n + 5" using 1(3) by simp
    ultimately have "progress (fst (interval_ticks (n + 5) (setProgress (Fin (of_nat (n + 5))) st))) = Fin 100"
      using 1(1)[OF refl refl False] by simp
    then show ?thesis using False by (subst interval_ticks.simps) (simp add: Let_def)
  qed
qed

section \<open>The ping phase computes the minimum and the mean absolute deviation\<close>

lemma ping_loop_append:
  "ping_loop probe i acc =
     acc @ concat (map (\<lambda>i. case probe i of
                               (start, Some finish) \<Rightarrow> [js_sub (dbl finish) (dbl start)]
                             | (start, None) \<Rightarrow> [])
       [i..<iterations])"
proof (induction probe i acc rule: ping_loop.induct)
  case (1 probe i pings)
  show ?case
  proof (cases "i < iterations")
    case True
    then have "[i..<iterations] = i # [Suc i..<iterations]" by (simp add: upt_conv_Cons)
    then show ?thesis
      using 1[OF True] True
      by (subst ping_loop.simps) (auto split: prod.splits option.splits)
  next
    case False
    then show ?thesis by (subst ping_loop.simps) simp
  qed
qed

lemma ping_loop_samples: "ping_loop (pingProbe e) 0 [] = samples e"
  by (simp add: ping_loop_append samples_def iterations_def)

lemma reduce_js_sum: "fold (\<lambda>b a. js_add a (g b)) xs (Fin 0) = js_sum (map g xs)"
  by (simp add: js_sum_def foldl_conv_fold fold_map comp_def)

lemma reduce_js_mean: "js_div (fold (\<lambda>b a. js_add a b) xs (Fin 0)) (Fin (of_nat (length xs))) = js_mean xs"
  using reduce_js_sum[of "\<lambda>x. x" xs] by (simp add: js_mean_def)

lemma reduce_js_mean_abs_dev:
  "js_div (fold (\<lambda>b a. js_add a (js_abs (js_sub b (js_mean xs)))) xs (Fin 0)) (Fin (of_nat (length xs)))
     = js_mean_abs_dev xs"
  by (simp add: reduce_js_sum js_mean_abs_dev_def js_mean_def[of "map f xs" for f])

lemma runPingTest_eq:
  "runPingTest e st =
     (if samples e = [] then st
      else setJitter (Some (js_round (js_mean_abs_dev (samples e))))
             (setPing (Some (js_round (math_min (samples e)))) st))"
  by (simp add: runPingTest_def ping_loop_samples Let_def reduce_js_mean reduce_js_mean_abs_dev)

lemma fst_runPingTest:
  "fst (runPingTest e st) =
     (if samples e = [] then fst st
      else (fst st)\<lparr>ping := Some (js_round (math_min (samples e))),
             jitter := Some (js_round (js_mean_abs_dev (samples e)))\<rparr>)"
  by (simp add: runPingTest_eq setPing_def setJitter_def fst_set_state)

lemma trace_runPingTest:
  "trace (runPingTest e st) = trace st @
     (if samples e = [] then []
      else [(fst st)\<lparr>ping := Some (js_round (math_min (samples e)))\<rparr>,
            (fst st)\<lparr>ping := Some (js_round (math_min (samples e))),
              jitter := Some (js_round (js_mean_abs_dev (samples e)))\<rparr>])"
  by (simp add: runPingTest_eq setPing_def setJitter_def fst_set_state trace_set_state)

lemma fold_js_min_Fin: "fold (\<lambda>x m. js_min m x) (map Fin xs) (Fin a) = Fin (fold min xs a)"
  by (induction xs arbitrary: a) (simp_all add: js_min_Fin min.commute)

lemma math_min_Fin:
  assumes "xs \<noteq> []"
  shows "math_min (map Fin xs) = Fin (Min (set xs))"
proof (cases xs)
  case Nil
  with assms show ?thesis by simp
next
  case (Cons a list)
  have "Min (set (a # list)) = fold min list a" by (rule Min.set_eq_fold)
  moreover have "js_min PosInf (Fin a) = Fin a" by (simp add: js_min_def js_less_def is_nan_def)
  ultimately show ?thesis using Cons by (simp add: math_min_def fold_js_min_Fin)
qed

lemma runTest_blocks:
  assumes "runTest e s = Some st"
  obtains R P D U c dl st12 ul st16 where
    "trace st = s # R @ P @ D @ U @ [c, fst st]"
    and "R \<noteq> []" and "P \<noteq> []" and "D \<noteq> []" and "U \<noteq> []"
    and "hd R = s\<lparr>isTesting := True\<rparr>"
    and "\<forall>x \<in> set R. phase x = phase s \<and> isTesting x"
    and "\<forall>x \<in> set P. phase x = Ping \<and> isTesting x \<and> downloadSpeed x = None \<and> uploadSpeed x = None"
    and "ping (hd P) = None" and "jitter (hd P) = None"
    and "\<forall>x \<in> set D. phase x = Download \<and> isTesting x \<and> uploadSpeed x = None \<and>
           ping x = ping (fst st) \<and> jitter x = jitter (fst st)"
    and "\<forall>x \<in> set U. phase x = Upload \<and> isTesting x \<and> downloadSpeed x = downloadSpeed (fst st) \<and>
           ping x = ping (fst st) \<and> jitter x = jitter (fst st)"
    and "c = (fst st)\<lparr>isTesting := True\<rparr>"
    and "phase (fst st) = Complete" and "\<not> isTesting (fst st)"
    and "downloadSpeed (fst st) \<noteq> None" and "uploadSpeed (fst st) \<noteq> None"
    and "s # R = clearing s"
    and "\<forall>x \<in> set P. (ping x = None \<or> ping x = ping (fst st)) \<and>
           (jitter x = None \<or> jitter x = jitter (fst st))"
    and "ping (last P) = ping (fst st)" and "jitter (last P) = jitter (fst st)"
    and "\<forall>x \<in> set (butlast D). downloadSpeed x = None"
    and "downloadSpeed (last D) = downloadSpeed (fst st)"
    and "\<forall>x \<in> set (butlast U). uploadSpeed x = None"
    and "uploadSpeed (last U) = uploadSpeed (fst st)"
    and "progress (last U) = Fin 100" and "progress (fst st) = Fin 100"
    and "s # R @ P = trace (runPingTest e (start_run s))"
    and "runDownloadTest e (setProgress (Fin 0) (setPhase Download (runPingTest e (start_run s))))
           = Some (dl, st12)"
    and "s # R @ P @ D = trace (setDownloadSpeed (Some dl) st12)"
    and "runUploadTest e (setProgress (Fin 0) (setPhase Upload (setDownloadSpeed (Some dl) st12)))
           = (ul, st16)"
    and "s # R @ P @ D @ U = trace (setUploadSpeed (Some ul) st16)"
    and "downloadSpeed (fst st) = Some dl" and "uploadSpeed (fst st) = Some ul"
proof -
  define st8 where "st8 = start_run s"
  define st9 where "st9 = runPingTest e st8"
  define st10 where "st10 = setPhase Download st9"
  define st11 where "st11 = setProgress (Fin 0) st10"
  from assms obtain dl st12 where dl: "runDownloadTest e st11 = Some (dl, st12)"
    and st: "st = finish_run e dl st12"
    by (auto simp: runTest_unfold st8_def st9_def st10_def st11_def split: option.splits)
  define st13 where "st13 = setDownloadSpeed (Some dl) st12"
  define st14 where "st14 = setPhase Upload st13"
  define st15 where "st15 = setProgress (Fin 0) st14"
  define st16 where "st16 = interval_ticks 0 st15"
  define ul where "ul = random_between 10 50 (uploadRandom e)"
  define st17 where "st17 = setUploadSpeed (Some ul) st16"
  define st18 where "st18 = setPhase Complete st17"
  have st19: "st = setIsTesting False st18"
    by (simp add: st finish_run_def st13_def st14_def st15_def st16_def st17_def st18_def ul_def)
  have up: "runUploadTest e (setProgress (Fin 0) (setPhase Upload (setDownloadSpeed (Some dl) st12)))
      = (ul, st16)"
    by (simp add: runUploadTest_def ul_def st16_def st15_def st14_def st13_def)
  have dl': "runDownloadTest e (setProgress (Fin 0) (setPhase Download (runPingTest e (start_run s))))
      = Some (dl, st12)"
    using dl by (simp add: st11_def st10_def st9_def st8_def)
  define c8 where "c8 = fst st8"
  have c8: "phase c8 = Ping" "isTesting c8" "downloadSpeed c8 = None" "uploadSpeed c8 = None"
    "ping c8 = None" "jitter c8 = None"
    by (simp_all add: c8_def st8_def fst_start_run)
  define R where "R = tl (clearing s)"
  have Rc: "s # R = clearing s" by (simp add: R_def clearing_def)
  have R: "trace st8 = s # R @ [c8]" "R \<noteq> []" "hd R = s\<lparr>isTesting := True\<rparr>"
    "\<forall>x \<in> set R. phase x = phase s \<and> isTesting x"
    using trace_start_run_clearing[of s] by (simp_all add: st8_def c8_def R_def clearing_def)
  define pv where "pv = js_round (math_min (samples e))"
  define jv where "jv = js_round (js_mean_abs_dev (samples e))"
  define Pnew where "Pnew = (if samples e = [] then []
     else [c8\<lparr>ping := Some pv\<rparr>, c8\<lparr>ping := Some pv, jitter := Some jv\<rparr>])"
  have t9: "trace st9 = trace st8 @ Pnew"
    by (simp add: st9_def trace_runPingTest Pnew_def c8_def pv_def jv_def)
  define c9 where "c9 = fst st9"
  have c9e: "c9 = (if samples e = [] then c8 else c8\<lparr>ping := Some pv, jitter := Some jv\<rparr>)"
    by (simp add: c9_def st9_def fst_runPingTest c8_def pv_def jv_def)
  have c9: "phase c9 = Ping" "isTesting c9" "downloadSpeed c9 = None" "uploadSpeed c9 = None"
    using c8 by (simp_all add: c9e)
  have lastP: "last (c8 # Pnew) = c9" by (simp add: Pnew_def c9e)
  have Pset: "\<forall>x \<in> set (c8 # Pnew). phase x = Ping \<and> isTesting x \<and> downloadSpeed x = None \<and>
      uploadSpeed x = None \<and> (ping x = None \<or> ping x = ping c9) \<and> (jitter x = None \<or> jitter x = jitter c9)"
    using c8 by (simp add: Pnew_def c9e)
  define c10 where "c10 = c9\<lparr>phase := Download\<rparr>"
  define c11 where "c11 = c10\<lparr>progress := Fin 0\<rparr>"
  have t11: "trace st11 = trace st9 @ [c10, c11]" and f11: "fst st11 = c11"
    by (simp_all add: st11_def st10_def c11_def c10_def c9_def setter_defs trace_set_state fst_set_state)
  let ?p2 = "\<lambda>x. (phase x, isTesting x, downloadSpeed x, uploadSpeed x, ping x, jitter x)"
  have "keeps ?p2 st11 st12" by (rule keeps_runDownloadTest[OF _ _ dl]) simp_all
  then obtain Dnew where Dnew: "trace st12 = trace st11 @ Dnew" "\<forall>x \<in> set Dnew. ?p2 x = ?p2 c11"
    "?p2 (fst st12) = ?p2 c11"
    unfolding f11[symmetric] by (rule keepsD)
  define c12 where "c12 = fst st12"
  define c13 where "c13 = c12\<lparr>downloadSpeed := Some dl\<rparr>"
  define c14 where "c14 = c13\<lparr>phase := Upload\<rparr>"
  define c15 where "c15 = c14\<lparr>progress := Fin 0\<rparr>"
  have t13: "trace st13 = trace st12 @ [c13]"
    by (simp add: st13_def c13_def c12_def setter_defs trace_set_state)
  have t15: "trace st15 = trace st12 @ [c13, c14, c15]" and f15: "fst st15 = c15"
    by (simp_all add: st15_def st14_def st13_def c15_def c14_def c13_def c12_def setter_defs
        trace_set_state fst_set_state)
  have "keeps ?p2 st15 st16" unfolding st16_def by (rule keeps_interval_ticks) simp
  then obtain Unew where Unew: "trace st16 = trace st15 @ Unew" "\<forall>x \<in> set Unew. ?p2 x = ?p2 c15"
    "?p2 (fst st16) = ?p2 c15"
    unfolding f15[symmetric] by (rule keepsD)
  define c16 where "c16 = fst st16"
  have p16: "progress c16 = Fin 100" unfolding c16_def st16_def by (rule interval_ticks_progress) simp_all
  define c17 where "c17 = c16\<lparr>uploadSpeed := Some ul\<rparr>"
  define c18 where "c18 = c17\<lparr>phase := Complete\<rparr>"
  define c19 where "c19 = c18\<lparr>isTesting := False\<rparr>"
  have t17: "trace st17 = trace st16 @ [c17]"
    by (simp add: st17_def c17_def c16_def setter_defs trace_set_state)
  have t19: "trace st = trace st16 @ [c17, c18, c19]" and f19: "fst st = c19"
    by (simp_all add: st19 st18_def st17_def c19_def c18_def c17_def c16_def setter_defs
        trace_set_state fst_set_state)
  have pj9: "ping c19 = ping c9" "jitter c19 = jitter c9" "downloadSpeed c19 = Some dl"
    "uploadSpeed c19 = Some ul" "progress c19 = Fin 100"
    using Unew(3) Dnew(3) p16
    by (simp_all add: c19_def c18_def c17_def c16_def c15_def c14_def c13_def c12_def c11_def c10_def)
  have tr: "trace st = s # R @ (c8 # Pnew) @ ([c10, c11] @ Dnew @ [c13]) @ ([c14, c15] @ Unew @ [c17]) @ [c18, fst st]"
    by (simp add: t19 Unew(1) t15 Dnew(1) t11 t9 R(1) f19)
  have P: "\<forall>x \<in> set (c8 # Pnew). phase x = Ping \<and> isTesting x \<and> downloadSpeed x = None \<and> uploadSpeed x = None"
    using Pset by blast
  have P2: "\<forall>x \<in> set (c8 # Pnew). (ping x = None \<or> ping x = ping c19) \<and> (jitter x = None \<or> jitter x = jitter c19)"
    using Pset pj9(1,2) by simp
  have P3: "ping (last (c8 # Pnew)) = ping c19" "jitter (last (c8 # Pnew)) = jitter c19"
    unfolding lastP using pj9 by simp_all
  have hdP: "ping (hd (c8 # Pnew)) = None" "jitter (hd (c8 # Pnew)) = None" using c8 by simp_all
  have c11f: "phase c11 = Download" "isTesting c11" "uploadSpeed c11 = None" "ping c11 = ping c9"
    "jitter c11 = jitter c9" "downloadSpeed c11 = None"
    using c9 by (simp_all add: c11_def c10_def)
  have D: "\<forall>x \<in> set ([c10, c11] @ Dnew @ [c13]). phase x = Download \<and> isTesting x \<and> uploadSpeed x = None \<and>
        ping x = ping c19 \<and> jitter x = jitter c19"
    using Dnew(2) Dnew(3) c11f c9 pj9 by (auto simp: c10_def c13_def c12_def)
  have bD: "butlast ([c10, c11] @ Dnew @ [c13]) = [c10, c11] @ Dnew" "last ([c10, c11] @ Dnew @ [c13]) = c13"
    by (simp_all add: butlast_append)
  have D2: "\<forall>x \<in> set (butlast ([c10, c11] @ Dnew @ [c13])). downloadSpeed x = None"
    unfolding bD using Dnew(2) c11f c9 by (auto simp: c10_def)
  have D3: "downloadSpeed (last ([c10, c11] @ Dnew @ [c13])) = downloadSpeed c19"
    unfolding bD using pj9 by (simp add: c13_def)
  have c15f: "phase c15 = Upload" "isTesting c15" "uploadSpeed c15 = None" "ping c15 = ping c9"
    "jitter c15 = jitter c9" "downloadSpeed c15 = Some dl"
    using Dnew(3) c11f by (simp_all add: c15_def c14_def c13_def c12_def)
  have U: "\<forall>x \<in> set ([c14, c15] @ Unew @ [c17]). phase x = Upload \<and> isTesting x \<and>
        downloadSpeed x = downloadSpeed c19 \<and> ping x = ping c19 \<and> jitter x = jitter c19"
    using Unew(2) Unew(3) c15f pj9 Dnew(3) c11f
    by (auto simp: c14_def c13_def c12_def c17_def c16_def)
  have bU: "butlast ([c14, c15] @ Unew @ [c17]) = [c14, c15] @ Unew" "last ([c14, c15] @ Unew @ [c17]) = c17"
    by (simp_all add: butlast_append)
  have U2: "\<forall>x \<in> set (butlast ([c14, c15] @ Unew @ [c17])). uploadSpeed x = None"
    unfolding bU using Unew(2) c15f Dnew(3) c11f by (auto simp: c14_def c13_def c12_def)
  have U3: "uploadSpeed (last ([c14, c15] @ Unew @ [c17])) = uploadSpeed c19"
    "progress (last ([c14, c15] @ Unew @ [c17])) = Fin 100"
    unfolding bU using pj9 p16 by (simp_all add: c17_def)
  have fin: "c18 = c19\<lparr>isTesting := True\<rparr>" "phase c19 = Complete" "\<not> isTesting c19"
    "downloadSpeed c19 \<noteq> None" "uploadSpeed c19 \<noteq> None"
    using Unew(3) c15f pj9 by (simp_all add: c19_def c18_def c17_def c16_def)
  have e1: "s # R @ (c8 # Pnew) = trace (runPingTest e (start_run s))"
    using t9 R(1) by (simp add: st9_def st8_def)
  have e2: "s # R @ (c8 # Pnew) @ ([c10, c11] @ Dnew @ [c13]) = trace (setDownloadSpeed (Some dl) st12)"
    using t13 Dnew(1) t11 t9 R(1) by (simp add: st13_def)
  have e3: "s # R @ (c8 # Pnew) @ ([c10, c11] @ Dnew @ [c13]) @ ([c14, c15] @ Unew @ [c17])
      = trace (setUploadSpeed (Some ul) st16)"
    using t17 Unew(1) t15 Dnew(1) t11 t9 R(1) by (simp add: st17_def)
  note D' = D[folded f19] and U' = U[folded f19] and fin' = fin[folded f19]
    and P2' = P2[folded f19] and P3' = P3[folded f19] and D3' = D3[folded f19]
    and U3' = U3[folded f19] and pj9' = pj9[folded f19]
  show ?thesis
    apply (rule that[where R = R and P = "c8 # Pnew" and D = "[c10, c11] @ Dnew @ [c13]"
          and U = "[c14, c15] @ Unew @ [c17]" and c = c18 and dl = dl and ?st12.0 = st12
          and ul = ul and ?st16.0 = st16])
                        apply (rule tr)
                        apply (rule R(2))
                        apply simp
                        apply simp
                        apply simp
                        apply (rule R(3))
                        apply (rule R(4))
                        apply (rule P)
                        apply (rule hdP(1))
                        apply (rule hdP(2))
                        apply (rule D')
                        apply (rule U')
                        apply (rule fin'(1))
                        apply (rule fin'(2))
                        apply (rule fin'(3))
                        apply (rule fin'(4))
                        apply (rule fin'(5))
                        apply (rule Rc)
                        apply (rule P2')
                        apply (rule P3'(1))
                        apply (rule P3'(2))
                        apply (rule D2)
                        apply (rule D3')
                        apply (rule U2)
                        apply (rule U3'(1))
                        apply (rule U3'(2))
                        apply (rule pj9'(5))
                        apply (rule e1)
                        apply (rule dl')
                        apply (rule e2)
                        apply (rule up)
                        apply (rule e3)
                        apply (rule pj9'(3))
                        apply (rule pj9'(4))
    done
qed

lemma runTest_results:
  assumes "runTest e s = Some st"
  shows "\<exists>dl st'. runDownloadTest e (setProgress (Fin 0) (setPhase Download (runPingTest e (start_run s))))
             = Some (dl, st') \<and>
           downloadSpeed (fst st) = Some dl \<and> error (fst st) = error (fst st') \<and>
           uploadSpeed (fst st) = Some (random_between 10 50 (uploadRandom e)) \<and>
           ping (fst st) = ping (fst (runPingTest e (start_run s))) \<and>
           jitter (fst st) = jitter (fst (runPingTest e (start_run s))) \<and>
           ipInfo (fst st) = ipInfo s \<and> phase (fst st) = Complete \<and> \<not> isTesting (fst st)"
proof -
  let ?st11 = "setProgress (Fin 0) (setPhase Download (runPingTest e (start_run s)))"
  from assms obtain dl st12 where dl: "runDownloadTest e ?st11 = Some (dl, st12)"
    and st: "st = finish_run e dl st12"
    by (auto simp: runTest_unfold split: option.splits)
  let ?p = "\<lambda>x. (ping x, jitter x, ipInfo x)"
  have k1: "keeps ?p ?st11 st12" by (rule keeps_runDownloadTest[OF _ _ dl]) simp_all
  let ?st15 = "setProgress (Fin 0) (setPhase Upload (setDownloadSpeed (Some dl) st12))"
  let ?q = "\<lambda>x. (ping x, jitter x, ipInfo x, error x, downloadSpeed x)"
  have k2: "keeps ?q ?st15 (interval_ticks 0 ?st15)" by (rule keeps_interval_ticks) simp
  have f11: "?p (fst ?st11) = ?p (fst (runPingTest e (start_run s)))"
    by (simp add: setter_defs fst_set_state)
  have f15: "?q (fst ?st15) = (ping (fst st12), jitter (fst st12), ipInfo (fst st12), error (fst st12), Some dl)"
    by (simp add: setter_defs fst_set_state)
  have f19: "fst st = (fst (interval_ticks 0 ?st15))\<lparr>uploadSpeed := Some (random_between 10 50 (uploadRandom e)),
      phase := Complete, isTesting := False\<rparr>"
    by (simp add: st finish_run_def setter_defs fst_set_state)
  have ip: "ipInfo (fst (runPingTest e (start_run s))) = ipInfo s"
    by (simp add: fst_runPingTest fst_start_run del: js_round.simps)
  show ?thesis
    using dl keeps_fst[OF k1] keeps_fst[OF k2] f11 f15 f19 ip by simp
qed

section \<open>The read loop on a stream that ends\<close>

lemma read_loop_finite:
  assumes "\<forall>j<length ks. reader (i + j) = Chunk (ks ! j)"
    and "reader (i + length ks) = Done \<or> reader (i + length ks) = ReadRejected"
  shows "\<exists>st'. read_loop reader cl i rl st =
           Some (if reader (i + length ks) = Done then Inr (last (rl # js_running_totals rl ks))
                 else Inl ReadFailed, st') \<and>
         trace st' = trace st @ map (\<lambda>received. (fst st)\<lparr>progress := progress_at received cl\<rparr>)
           (js_running_totals rl ks)"
  using assms
proof (induction ks arbitrary: i rl st)
  case Nil
  then have "read_loop reader cl i rl st =
      Some (if reader (i + length []) = Done then Inr (last (rl # js_running_totals rl [])) else Inl ReadFailed, st)"
    by (subst read_loop.simps) auto
  then show ?case by simp
next
  case (Cons k ks)
  define rl' where "rl' = js_add rl (dbl (of_nat k))"
  let ?st1 = "setProgress (progress_at rl' cl) st"
  from Cons.prems(1) have hd: "reader i = Chunk k" by fastforce
  have tl: "\<forall>j<length ks. reader (Suc i + j) = Chunk (ks ! j)"
  proof (intro allI impI)
    fix j assume "j < length ks"
    then have "reader (i + Suc j) = Chunk ((k # ks) ! Suc j)" using Cons.prems(1) by auto
    then show "reader (Suc i + j) = Chunk (ks ! j)" by simp
  qed
  have fin: "reader (Suc i + length ks) = Done \<or> reader (Suc i + length ks) = ReadRejected"
    using Cons.prems(2) by simp
  from Cons.IH[OF tl fin, of rl' ?st1] obtain st' where
    st': "read_loop reader cl (Suc i) rl' ?st1 =
            Some (if reader (Suc i + length ks) = Done then Inr (last (rl' # js_running_totals rl' ks))
                  else Inl ReadFailed, st')"
      "trace st' = trace ?st1 @ map (\<lambda>received. (fst ?st1)\<lparr>progress := progress_at received cl\<rparr>)
           (js_running_totals rl' ks)"
    by blast
  have unfold: "read_loop reader cl i rl st = read_loop reader cl (Suc i) rl' ?st1"
    using hd by (subst read_loop.simps) (simp add: progress_at_def rl'_def)
  have "trace st' = trace st @ map (\<lambda>received. (fst st)\<lparr>progress := progress_at received cl\<rparr>)
           (js_running_totals rl (k # ks))"
    using st'(2) by (simp add: setProgress_def trace_set_state fst_set_state rl'_def)
  moreover have "last (rl # js_running_totals rl (k # ks)) = last (rl' # js_running_totals rl' ks)"
    by (simp add: rl'_def)
  ultimately show ?case using st'(1) unfold by simp
qed

lemma stream_ends_chunks:
  assumes "reader n = Done \<or> reader n = ReadRejected"
  shows "\<exists>ks. length ks \<le> n \<and> (\<forall>j<length ks. reader j = Chunk (ks ! j)) \<and>
           (reader (length ks) = Done \<or> reader (length ks) = ReadRejected)"
proof -
  define m where "m = (LEAST n. reader n = Done \<or> reader n = ReadRejected)"
  have m: "reader m = Done \<or> reader m = ReadRejected"
    unfolding m_def using assms by (rule LeastI)
  have mn: "m \<le> n" unfolding m_def using assms by (rule Least_le)
  have before: "\<exists>k. reader j = Chunk k" if "j < m" for j
  proof -
    from that have "\<not> (reader j = Done \<or> reader j = ReadRejected)"
      unfolding m_def by (rule not_less_Least)
    then show ?thesis by (cases "reader j") auto
  qed
  define ks where "ks = map (\<lambda>j. case reader j of Chunk k \<Rightarrow> k | _ \<Rightarrow> 0) [0..<m]"
  have len: "length ks = m" by (simp add: ks_def)
  have "reader j = Chunk (ks ! j)" if "j < m" for j
    using before[OF that] that by (auto simp: ks_def)
  then show ?thesis using m mn len by auto
qed

lemma read_loop_returns:
  assumes "stream_ends reader"
  shows "\<exists>r st'. read_loop reader cl 0 rl st = Some (r, st')"
proof -
  from assms obtain n where "reader n = Done \<or> reader n = ReadRejected"
    by (auto simp: stream_ends_def)
  from stream_ends_chunks[of reader n, OF this] obtain ks where
    ks: "\<forall>j<length ks. reader (0 + j) = Chunk (ks ! j)"
      "reader (0 + length ks) = Done \<or> reader (0 + length ks) = ReadRejected"
    by auto
  from read_loop_finite[OF ks] show ?thesis by blast
qed

lemma runDownloadTest_returns:
  assumes "download_settles e"
  shows "\<exists>v st'. runDownloadTest e st = Some (v, st')"
proof (cases "downloadFetch e")
  case None
  then show ?thesis by (simp add: runDownloadTest_def)
next
  case (Some resp)
  show ?thesis
  proof (cases "ok resp \<and> body resp \<noteq> None")
    case False
    then show ?thesis using Some by (auto simp: runDownloadTest_def download_catch_def)
  next
    case True
    then obtain reader where reader: "body resp = Some reader" by auto
    with assms Some True have "stream_ends reader" by (simp add: download_settles_def)
    from read_loop_returns[OF this] obtain r st1 where
      "read_loop reader (contentLength_of (content_length resp)) 0 (Fin 0) st = Some (r, st1)" by blast
    then show ?thesis using Some True reader
      by (cases r) (simp_all add: runDownloadTest_def download_catch_def)
  qed
qed

lemma runTest_returns:
  assumes "download_settles e"
  shows "\<exists>st. runTest e s = Some st"
proof -
  from runDownloadTest_returns[OF assms] obtain v st' where
    "runDownloadTest e (setProgress (Fin 0) (setPhase Download (runPingTest e (start_run s)))) = Some (v, st')"
    by blast
  then show ?thesis by (simp add: runTest_unfold)
qed

lemma example_settles: "download_settles example_env"
proof -
  have "example_reader 2 = Done" by (simp add: example_reader_def)
  then have "stream_ends example_reader" unfolding stream_ends_def by blast
  then show ?thesis by (simp add: download_settles_def example_env_def example_response_def)
qed

lemma offline_settles: "download_settles offline_env"
  by (simp add: download_settles_def offline_env_def)

lemma runTest_ping_jitter:
  assumes "runTest e s = Some st"
  shows "ping (fst st) = (if samples e = [] then None else Some (js_round (math_min (samples e))))"
    and "jitter (fst st) = (if samples e = [] then None else Some (js_round (js_mean_abs_dev (samples e))))"
  using runTest_results[OF assms] by (auto simp: fst_runPingTest fst_start_run simp del: js_round.simps)

lemma remdups_adj_same:
  assumes "xs \<noteq> []" and "\<forall>x \<in> set xs. f x = a"
  shows "remdups_adj (map f xs @ ys) = remdups_adj (a # ys)"
  using assms
proof (induction xs rule: list_nonempty_induct)
  case (single x)
  then show ?case by simp
next
  case (cons x xs)
  then obtain y zs where "xs = y # zs" by (cases xs) auto
  then show ?case using cons by simp
qed

lemma remdups_adj_block:
  assumes "xs \<noteq> []" and "\<forall>x \<in> set xs. f x = a" and "remdups_adj ys = zs" and "zs \<noteq> []"
    and "hd zs \<noteq> a"
  shows "remdups_adj (map f xs @ ys) = a # zs"
proof -
  from assms(3,4) obtain y ys' where ys: "ys = y # ys'" by (cases ys) auto
  have "hd zs = hd ys" unfolding assms(3)[symmetric] by (rule hd_remdups_adj)
  then have "hd zs = y" using ys by simp
  then have "y \<noteq> a" using assms(5) by simp
  then have "remdups_adj (a # ys) = a # remdups_adj ys" using ys by simp
  then show ?thesis using remdups_adj_same[OF assms(1,2)] assms(3) by simp
qed

section \<open>The download\<close>

lemma length_js_running_totals: "length (js_running_totals r ks) = length ks"
  by (induction ks arbitrary: r) simp_all

lemma runDownloadTest_stream:
  assumes "downloadFetch e = Some resp" and "ok resp" and "body resp = Some reader"
    and "\<forall>j<length ks. reader j = Chunk (ks ! j)"
    and "reader (length ks) = Done \<or> reader (length ks) = ReadRejected"
  shows "\<exists>st1. trace st1 = trace st @ map (\<lambda>received. (fst st)\<lparr>progress :=
             progress_at received (contentLength_of (content_length resp))\<rparr>) (js_running_totals (Fin 0) ks) \<and>
           runDownloadTest e st =
             Some (if reader (length ks) = Done
                   then (speed_of (received_bytes ks) (dbl (downloadStart e)) (dbl (downloadEnd e)), st1)
                   else download_catch st1)"
proof -
  have a: "\<forall>j<length ks. reader (0 + j) = Chunk (ks ! j)" using assms(4) by simp
  have b: "reader (0 + length ks) = Done \<or> reader (0 + length ks) = ReadRejected" using assms(5) by simp
  from read_loop_finite[OF a b, of "contentLength_of (content_length resp)" "Fin 0" st] obtain st1 where
    lp: "read_loop reader (contentLength_of (content_length resp)) 0 (Fin 0) st =
           Some (if reader (length ks) = Done then Inr (received_bytes ks) else Inl ReadFailed, st1)"
    and tr: "trace st1 = trace st @ map (\<lambda>received. (fst st)\<lparr>progress :=
             progress_at received (contentLength_of (content_length resp))\<rparr>) (js_running_totals (Fin 0) ks)"
    by (auto simp: received_bytes_def)
  have "runDownloadTest e st =
             Some (if reader (length ks) = Done
                   then (speed_of (received_bytes ks) (dbl (downloadStart e)) (dbl (downloadEnd e)), st1)
                   else download_catch st1)"
    using assms(1,2,3) lp by (simp add: runDownloadTest_def)
  then show ?thesis using tr by blast
qed

lemma runTest_download:
  assumes "runTest e s = Some st"
    and "\<And>st0. \<exists>st1. runDownloadTest e st0 = Some (v, st1) \<and> error (fst st1) = err (error (fst st0))"
  shows "downloadSpeed (fst st) = Some v \<and> error (fst st) = err None"
proof -
  let ?st9 = "runPingTest e (start_run s)"
  let ?st11 = "setProgress (Fin 0) (setPhase Download ?st9)"
  from runTest_results[OF assms(1)] obtain dl st' where
    dl: "runDownloadTest e ?st11 = Some (dl, st')" "downloadSpeed (fst st) = Some dl"
      "error (fst st) = error (fst st')"
    by blast
  from assms(2)[of ?st11] dl(1) have "dl = v" "error (fst st') = err (error (fst ?st11))" by auto
  moreover have "keeps error (start_run s) ?st9" by (rule keeps_runPingTest) simp_all
  then have "error (fst ?st9) = error (fst (start_run s))" by (rule keeps_fst)
  then have "error (fst ?st11) = None" by (simp add: setter_defs fst_set_state fst_start_run)
  ultimately show ?thesis using dl by simp
qed

lemma runDownloadTest_simulated:
  assumes "downloadFetch e = None \<or> (\<exists>resp. downloadFetch e = Some resp \<and> \<not> ok resp)"
  shows "runDownloadTest e st = Some (random_between 50 150 (downloadRandom e), interval_ticks 0 st)"
  using assms by (auto simp: runDownloadTest_def)

lemma runTest_downloadRandom:
  assumes "downloadFetch e = Some resp" and "ok resp"
  shows "runTest (e\<lparr>downloadRandom := r\<rparr>) s = runTest e s"
proof -
  have p: "runPingTest (e\<lparr>downloadRandom := r\<rparr>) st = runPingTest e st" for st
    by (simp add: runPingTest_def)
  have d: "runDownloadTest (e\<lparr>downloadRandom := r\<rparr>) st = runDownloadTest e st" for st
    using assms by (simp add: runDownloadTest_def split: option.splits sum.splits prod.splits)
  have f: "finish_run (e\<lparr>downloadRandom := r\<rparr>) dl st = finish_run e dl st" for dl st
    by (simp add: finish_run_def)
  show ?thesis by (simp add: runTest_unfold p d f split: option.splits prod.splits)
qed

section \<open>A body that never ends\<close>

text \<open>
  On a body that gives chunks for ever the loop of \<open>runDownloadTest\<close>, and with it
  \<open>runTest\<close>, does not return.
\<close>

lemma read_loop_never_returns:
  assumes "\<forall>i. \<exists>k. reader i = Chunk k"
  shows "read_loop reader cl i rl st = None"
proof -
  have "\<forall>cl i rl st. read_loop reader cl i rl st = None"
  proof (rule read_loop.fixp_induct[where P = "\<lambda>f. \<forall>cl i rl st. f reader cl i rl st = None"])
    show "option.admissible (\<lambda>f. \<forall>cl i rl st. curry (curry (curry (curry f))) reader cl i rl st = None)"
      by (auto simp: ccpo.admissible_def fun_lub_def flat_lub_def)
  next
    show "\<forall>cl i rl st. (\<lambda>reader contentLength i receivedLength st. None) reader cl i rl st = None"
      by simp
  next
    fix f :: "(nat \<Rightarrow> read_result) \<Rightarrow> jsnum \<Rightarrow> nat \<Rightarrow> jsnum \<Rightarrow> run \<Rightarrow> ((js_error + jsnum) \<times> run) option"
    assume IH: "\<forall>cl i rl st. f reader cl i rl st = None"
    show "\<forall>cl i rl st. (case reader i of
              Chunk n \<Rightarrow> f reader cl (Suc i) (js_add rl (dbl (of_nat n)))
                (setProgress (js_min (Fin 100) (js_mul (js_div (js_add rl (dbl (of_nat n))) cl) (Fin 100))) st)
            | Done \<Rightarrow> Some (Inr rl, st)
            | ReadRejected \<Rightarrow> Some (Inl ReadFailed, st)) = None"
    proof (intro allI)
      fix cl i rl st
      from assms obtain k where "reader i = Chunk k" by blast
      then show "(case reader i of
              Chunk n \<Rightarrow> f reader cl (Suc i) (js_add rl (dbl (of_nat n)))
                (setProgress (js_min (Fin 100) (js_mul (js_div (js_add rl (dbl (of_nat n))) cl) (Fin 100))) st)
            | Done \<Rightarrow> Some (Inr rl, st)
            | ReadRejected \<Rightarrow> Some (Inl ReadFailed, st)) = None"
        by (simp add: IH[rule_format])
    qed
  qed
  then show ?thesis by blast
qed

lemma runTest_never_returns:
  assumes "downloadFetch e = Some resp" and "ok resp" and "body resp = Some reader"
    and "\<forall>i. \<exists>k. reader i = Chunk k"
  shows "runTest e s = None"
  using assms(1,2,3) read_loop_never_returns[OF assms(4)]
  by (simp add: runTest_unfold runDownloadTest_def)

section \<open>Values of the examples\<close>

lemma dbl_of_nat:
  assumes "n < 2 ^ 53"
  shows "dbl (of_nat n) = Fin (of_nat n)"
proof (cases "n = 0")
  case True
  then show ?thesis by (simp add: dbl_def)
next
  case False
  then have "0 < int n" by simp
  moreover have "int n < 2 ^ 53" using assms by (metis of_nat_less_iff of_nat_numeral of_nat_power)
  ultimately have "dbl (of_int (int n)) = Fin (of_int (int n))" by (rule dbl_int)
  then show ?thesis by simp
qed

lemma js_add_of_nat:
  assumes "r + k < 2 ^ 53"
  shows "js_add (Fin (of_nat r)) (dbl (of_nat k)) = Fin (of_nat (r + k))"
proof -
  have k: "dbl (of_nat k) = Fin (of_nat k)" using assms by (intro dbl_of_nat) simp
  have "dbl (of_nat (r + k)) = Fin (of_nat (r + k))" using assms by (rule dbl_of_nat)
  then have "dbl (of_nat r + of_nat k) = Fin (of_nat r + of_nat k)" by simp
  then show ?thesis unfolding k by (simp add: js_add_def is_nan_def is_inf_def)
qed

lemma js_running_totals_exact:
  "r + sum_list ks < 2 ^ 53 \<Longrightarrow>
   js_running_totals (Fin (of_nat r)) ks = map (\<lambda>n. Fin (of_nat n)) (running_totals r ks)"
proof (induction ks arbitrary: r)
  case Nil
  then show ?case by simp
next
  case (Cons k ks)
  have "r + k < 2 ^ 53" using Cons.prems by simp
  then have a: "js_add (Fin (of_nat r)) (dbl (of_nat k)) = Fin (of_nat (r + k))" by (rule js_add_of_nat)
  have "(r + k) + sum_list ks < 2 ^ 53" using Cons.prems by (simp add: add.assoc)
  from Cons.IH[OF this] show ?case by (simp add: a)
qed

lemma last_running_totals: "last (r # running_totals r ks) = r + sum_list ks"
  by (induction ks arbitrary: r) (simp_all add: add.assoc)

lemma received_bytes_exact:
  assumes "sum_list ks < 2 ^ 53"
  shows "received_bytes ks = Fin (of_nat (sum_list ks))"
proof -
  have "js_running_totals (Fin (of_nat 0)) ks = map (\<lambda>n. Fin (of_nat n)) (running_totals 0 ks)"
    using assms by (intro js_running_totals_exact) simp
  then have "received_bytes ks = last (map (\<lambda>n. Fin (of_nat n)) (0 # running_totals 0 ks))"
    by (simp add: received_bytes_def)
  also have "\<dots> = Fin (of_nat (last (0 # running_totals 0 ks)))" by (subst last_map) simp_all
  finally show ?thesis by (simp only: last_running_totals) simp
qed

lemma square_1024: "js_mul (Fin 1024) (Fin 1024) = Fin 1048576"
  by code_simp

lemma speed_of_mbps:
  "speed_of received (dbl (downloadStart e)) (dbl (downloadEnd e)) = mbps received (elapsed_seconds e)"
  by (simp add: speed_of_def mbps_def elapsed_seconds_def square_1024 Let_def del: js_round.simps)

lemma samples_example: "samples example_env = map Fin [40, 42, 38, 41, 200]"
  by code_simp

lemma example_values:
  "js_round (math_min (map Fin [40, 42, 38, 41, 200])) = Fin 38"
  "js_round (js_mean_abs_dev (map Fin [40, 42, 38, 41, 200])) = Fin 51"
  by code_simp+

lemma samples_rounding: "samples rounding_env = map Fin rounding_samples"
  by code_simp

lemma rounding_values:
  "js_round (js_mean_abs_dev (map Fin rounding_samples)) = Fin 21"
  "round (mean_abs_dev rounding_samples) = 20"
  by code_simp+

lemma contentLength_default: "toNumber ''5000000'' = Fin 5000000"
  by code_simp

lemma toNumber_abc: "toNumber ''abc'' = NaN"
  by code_simp

lemma example_speed: "mbps (Fin 10000000) (elapsed_seconds example_env) = Fin 19"
  by code_simp

lemma half_speed:
  "mbps (Fin 8847360) (elapsed_seconds half_env) = Fin 62"
  "round ((8847360 :: rat) * 8 / ((1080 - 0) / 1000) / 1048576) = 63"
  by code_simp+

lemma near_top_value:
  "random_between 50 150 near_top = Fin 150"
  "near_top < 100 / 101"
  by code_simp+

lemma example_progress:
  "progress_at (Fin 5000000) (Fin 5000000) = Fin 100"
  "progress_at (Fin 10000000) (Fin 5000000) = Fin 100"
  "progress_at (Fin 1000) NaN = NaN"
  "progress_at (Fin 1000) (Fin 5000000) = dbl (1 / 50)"
  by code_simp+

section \<open>The range of the simulated speeds\<close>

lemma upload_range:
  assumes "0 \<le> r" and "r < 1"
  shows "\<exists>k. random_between 10 50 r = Fin (of_int k) \<and> 10 \<le> k \<and> k \<le> 50 \<and>
           of_int (k - 10) / 41 - 2 powi (- 52) \<le> r \<and> r < of_int (k - 9) / 41 + 2 powi (- 52)"
proof -
  have "\<exists>k. random_between 10 50 r = Fin (of_int k) \<and> 10 \<le> k \<and> k \<le> 50 \<and>
           of_int (k - 10) / of_int 41 - 2 powi (- 52) \<le> r \<and>
           r < of_int (k - 10 + 1) / of_int 41 + 2 powi (- 52)"
    by (rule random_between_range[OF assms, where b = 5]) simp_all
  then obtain k where k: "random_between 10 50 r = Fin (of_int k)" "10 \<le> k" "k \<le> 50"
    "of_int (k - 10) / of_int 41 - 2 powi (- 52) \<le> r"
    "r < of_int (k - 10 + 1) / of_int 41 + 2 powi (- 52)" by blast
  have "k - 10 + 1 = k - 9" by simp
  then show ?thesis using k by (intro exI[of _ k]) (simp del: of_int_diff)
qed

lemma download_range:
  assumes "0 \<le> r" and "r < 1"
  shows "\<exists>k. random_between 50 150 r = Fin (of_int k) \<and> 50 \<le> k \<and> k \<le> 150 \<and>
           of_int (k - 50) / 101 - 2 powi (- 52) \<le> r \<and> r < of_int (k - 49) / 101 + 2 powi (- 52)"
proof -
  have "\<exists>k. random_between 50 150 r = Fin (of_int k) \<and> 50 \<le> k \<and> k \<le> 150 \<and>
           of_int (k - 50) / of_int 101 - 2 powi (- 52) \<le> r \<and>
           r < of_int (k - 50 + 1) / of_int 101 + 2 powi (- 52)"
    by (rule random_between_range[OF assms, where b = 6]) simp_all
  then obtain k where k: "random_between 50 150 r = Fin (of_int k)" "50 \<le> k" "k \<le> 150"
    "of_int (k - 50) / of_int 101 - 2 powi (- 52) \<le> r"
    "r < of_int (k - 50 + 1) / of_int 101 + 2 powi (- 52)" by blast
  have "k - 50 + 1 = k - 49" by simp
  then show ?thesis using k by (intro exI[of _ k]) (simp del: of_int_diff)
qed

section \<open>The flag \<open>isTesting\<close>\<close>

text \<open>
  C10. \<open>isTesting\<close> is true exactly while a run is in progress: the first state after the
  start of \<open>runTest\<close> is the starting state with \<open>isTesting\<close> set, \<open>isTesting\<close> holds in
  every state up to and including the one that sets the phase \<open>complete\<close>, and the last
  state only clears it. Hence in every state of the run whose phase is \<open>ping\<close>,
  \<open>download\<close> or \<open>upload\<close>, \<open>isTesting\<close> is true.
\<close>

theorem isTesting_during_run:
  assumes "runTest e s = Some st"
  shows "\<exists>mid. trace st = s # mid @ [fst st] \<and> mid \<noteq> [] \<and> hd mid = s\<lparr>isTesting := True\<rparr> \<and>
           (\<forall>x \<in> set mid. isTesting x) \<and> phase (last mid) = Complete \<and>
           fst st = (last mid)\<lparr>isTesting := False\<rparr> \<and>
           (\<forall>x \<in> set (mid @ [fst st]).
              phase x = Ping \<or> phase x = Download \<or> phase x = Upload \<longrightarrow> isTesting x)"
proof -
  obtain R P D U c where
    tr: "trace st = s # R @ P @ D @ U @ [c, fst st]" and
    ne: "R \<noteq> []" and hd: "hd R = s\<lparr>isTesting := True\<rparr>" and
    R: "\<forall>x \<in> set R. phase x = phase s \<and> isTesting x" and
    P: "\<forall>x \<in> set P. phase x = Ping \<and> isTesting x \<and> downloadSpeed x = None \<and> uploadSpeed x = None" and
    D: "\<forall>x \<in> set D. phase x = Download \<and> isTesting x \<and> uploadSpeed x = None \<and>
        ping x = ping (fst st) \<and> jitter x = jitter (fst st)" and
    U: "\<forall>x \<in> set U. phase x = Upload \<and> isTesting x \<and> downloadSpeed x = downloadSpeed (fst st) \<and>
        ping x = ping (fst st) \<and> jitter x = jitter (fst st)" and
    c: "c = (fst st)\<lparr>isTesting := True\<rparr>" and
    fin: "phase (fst st) = Complete" "\<not> isTesting (fst st)"
    by (rule runTest_blocks[OF assms])
  let ?mid = "R @ P @ D @ U @ [c]"
  have 1: "trace st = s # ?mid @ [fst st]" using tr by simp
  have 2: "?mid \<noteq> []" by simp
  have 3: "hd ?mid = s\<lparr>isTesting := True\<rparr>" using ne hd by simp
  have 4: "\<forall>x \<in> set ?mid. isTesting x" using R P D U c by auto
  have 5: "phase (last ?mid) = Complete" using c fin by simp
  have 6: "fst st = (last ?mid)\<lparr>isTesting := False\<rparr>" using c fin by simp
  have 7: "\<forall>x \<in> set (?mid @ [fst st]).
      phase x = Ping \<or> phase x = Download \<or> phase x = Upload \<longrightarrow> isTesting x"
    using 4 fin by auto
  show ?thesis using 1 2 3 4 5 6 7 by blast
qed

text \<open>
  The run without network from the initial session is such a run.
\<close>

theorem isTesting_during_run_witness:
  "\<exists>st mid. runTest offline_env initial = Some st \<and> trace st = initial # mid @ [fst st] \<and>
     (\<forall>x \<in> set mid. isTesting x) \<and> \<not> isTesting (fst st)"
proof -
  from runTest_returns[OF offline_settles] obtain st where st: "runTest offline_env initial = Some st"
    by blast
  from isTesting_during_run[OF st] obtain mid where
    "trace st = initial # mid @ [fst st]" "\<forall>x \<in> set mid. isTesting x"
    "fst st = (last mid)\<lparr>isTesting := False\<rparr>"
    by blast
  moreover from this(3) have "\<not> isTesting (fst st)" by (metis session.select_convs(6) session.surjective session.update_convs(6))
  ultimately show ?thesis using st by blast
qed

section \<open>The phases of a run\<close>

text \<open>
  C6 (amended). Whatever the outcomes of the probes (every latency probe may be rejected,
  the download request may be rejected, answered without success, or its body may fail at
  any read) and of the lookup of the network information, \<open>runTest\<close> returns and leaves the
  phase \<open>complete\<close>, provided the body of a successful download ends (by its end or by a
  rejected read); when that body gives chunks for ever, \<open>runTest\<close> does not return.
\<close>

theorem runTest_completes:
  "(download_settles e \<longrightarrow>
      (\<exists>st. runTest e (fetchNetworkInfo r s) = Some st \<and> phase (fst st) = Complete \<and>
         \<not> isTesting (fst st))) \<and>
   (\<not> download_settles e \<longrightarrow> runTest e (fetchNetworkInfo r s) = None)"
proof (intro conjI impI)
  assume "download_settles e"
  from runTest_returns[OF this] obtain st where st: "runTest e (fetchNetworkInfo r s) = Some st"
    by blast
  from runTest_results[OF st] have "phase (fst st) = Complete \<and> \<not> isTesting (fst st)" by blast
  then show "\<exists>st. runTest e (fetchNetworkInfo r s) = Some st \<and> phase (fst st) = Complete \<and>
         \<not> isTesting (fst st)" using st by blast
next
  assume n: "\<not> download_settles e"
  then obtain resp where resp: "downloadFetch e = Some resp"
    by (cases "downloadFetch e") (auto simp: download_settles_def)
  from n resp obtain reader where reader: "body resp = Some reader"
    by (cases "body resp") (auto simp: download_settles_def)
  from n resp reader have ok: "ok resp" and ends: "\<not> stream_ends reader"
    by (auto simp: download_settles_def)
  have "\<forall>i. \<exists>k. reader i = Chunk k"
  proof
    fix i
    from ends have "reader i \<noteq> Done" "reader i \<noteq> ReadRejected" by (auto simp: stream_ends_def)
    then show "\<exists>k. reader i = Chunk k" by (cases "reader i") auto
  qed
  then show "runTest e (fetchNetworkInfo r s) = None" by (rule runTest_never_returns[OF resp ok reader])
qed

text \<open>
  The run without network, after a lookup that was rejected, is such a run.
\<close>

theorem runTest_completes_witness:
  "download_settles offline_env \<and>
   (\<exists>st. runTest offline_env (fetchNetworkInfo FetchRejected initial) = Some st \<and>
      phase (fst st) = Complete \<and> \<not> isTesting (fst st))"
  using runTest_completes[of offline_env FetchRejected initial] offline_settles by blast

text \<open>
  C6 as stated fails: when the download request succeeds and every read of the body gives
  a chunk, the run never returns, so it never reaches the phase \<open>complete\<close>.
\<close>

theorem endless_body_counterexample:
  "downloadFetch endless_env = Some endless_response \<and> ok endless_response \<and>
   body endless_response = Some endless_reader \<and> (\<forall>i. endless_reader i = Chunk 1000) \<and>
   runTest endless_env (fetchNetworkInfo FetchRejected initial) = None"
proof -
  have f: "downloadFetch endless_env = Some endless_response" by (simp add: endless_env_def)
  have o: "ok endless_response" by (simp add: endless_response_def)
  have b: "body endless_response = Some endless_reader" by (simp add: endless_response_def)
  have c: "\<forall>i. endless_reader i = Chunk 1000" by (simp add: endless_reader_def)
  then have "\<forall>i. \<exists>k. endless_reader i = Chunk k" by blast
  from runTest_never_returns[OF f o b this] show ?thesis using f o b c by blast
qed

text \<open>
  C2 (amended). A run whose download settles and that starts in the phase \<open>idle\<close> or
  \<open>complete\<close> visits that phase, then \<open>ping\<close>, \<open>download\<close>, \<open>upload\<close> and \<open>complete\<close>,
  in this order, skipping none and repeating none of the three phases in between: its
  trace is a block of states for each of the five. No phase begins before the operation
  of the phase before it has resolved: the trace up to the end of the ping block is the
  trace at the moment \<open>runPingTest\<close> has returned; up to the end of the download block it is
  the trace at the moment \<open>runDownloadTest\<close> has returned, with its result stored; up to the
  end of the upload block it is the trace at the moment \<open>runUploadTest\<close> has returned, with
  its result stored. So the ping and the jitter are final in the download block, the
  download speed in the upload block, and the upload speed, with the progress 100, in the
  last block.
\<close>

theorem phases_of_run:
  assumes "download_settles e" and "phase s = Idle \<or> phase s = Complete"
  shows "\<exists>st A P D U C dl st1 ul st2.
     runTest e s = Some st \<and> visited st = [phase s, Ping, Download, Upload, Complete] \<and>
     trace st = A @ P @ D @ U @ C \<and>
     A \<noteq> [] \<and> P \<noteq> [] \<and> D \<noteq> [] \<and> U \<noteq> [] \<and> C \<noteq> [] \<and>
     (\<forall>x \<in> set A. phase x = phase s) \<and> (\<forall>x \<in> set P. phase x = Ping) \<and>
     (\<forall>x \<in> set D. phase x = Download) \<and> (\<forall>x \<in> set U. phase x = Upload) \<and>
     (\<forall>x \<in> set C. phase x = Complete) \<and>
     A @ P = trace (runPingTest e (start_run s)) \<and>
     runDownloadTest e (setProgress (Fin 0) (setPhase Download (runPingTest e (start_run s))))
       = Some (dl, st1) \<and>
     A @ P @ D = trace (setDownloadSpeed (Some dl) st1) \<and>
     runUploadTest e (setProgress (Fin 0) (setPhase Upload (setDownloadSpeed (Some dl) st1)))
       = (ul, st2) \<and>
     A @ P @ D @ U = trace (setUploadSpeed (Some ul) st2) \<and>
     (\<forall>x \<in> set D. ping x = ping (fst st) \<and> jitter x = jitter (fst st)) \<and>
     (\<forall>x \<in> set U. downloadSpeed x = Some dl \<and> ping x = ping (fst st) \<and> jitter x = jitter (fst st)) \<and>
     (\<forall>x \<in> set C. uploadSpeed x = Some ul \<and> downloadSpeed x = Some dl \<and> progress x = Fin 100 \<and>
        ping x = ping (fst st) \<and> jitter x = jitter (fst st)) \<and>
     last C = fst st"
proof -
  from runTest_returns[OF assms(1)] obtain st where st: "runTest e s = Some st" by blast
  obtain R P D U c dl st1 ul st2 where
    tr: "trace st = s # R @ P @ D @ U @ [c, fst st]" and
    ne: "P \<noteq> []" "D \<noteq> []" "U \<noteq> []" and
    R: "\<forall>x \<in> set R. phase x = phase s \<and> isTesting x" and
    P: "\<forall>x \<in> set P. phase x = Ping \<and> isTesting x \<and> downloadSpeed x = None \<and> uploadSpeed x = None" and
    D: "\<forall>x \<in> set D. phase x = Download \<and> isTesting x \<and> uploadSpeed x = None \<and>
        ping x = ping (fst st) \<and> jitter x = jitter (fst st)" and
    U: "\<forall>x \<in> set U. phase x = Upload \<and> isTesting x \<and> downloadSpeed x = downloadSpeed (fst st) \<and>
        ping x = ping (fst st) \<and> jitter x = jitter (fst st)" and
    c: "c = (fst st)\<lparr>isTesting := True\<rparr>" and
    fin: "phase (fst st) = Complete" and
    pr: "progress (fst st) = Fin 100" and
    e1: "s # R @ P = trace (runPingTest e (start_run s))" and
    e2: "runDownloadTest e (setProgress (Fin 0) (setPhase Download (runPingTest e (start_run s))))
           = Some (dl, st1)" and
    e3: "s # R @ P @ D = trace (setDownloadSpeed (Some dl) st1)" and
    e4: "runUploadTest e (setProgress (Fin 0) (setPhase Upload (setDownloadSpeed (Some dl) st1)))
           = (ul, st2)" and
    e5: "s # R @ P @ D @ U = trace (setUploadSpeed (Some ul) st2)" and
    dl: "downloadSpeed (fst st) = Some dl" and ul: "uploadSpeed (fst st) = Some ul"
    by (rule runTest_blocks[OF st])
  have pc: "phase c = Complete" using c fin by simp
  have b4: "remdups_adj (map phase [c, fst st]) = [Complete]" using pc fin by simp
  have b3: "remdups_adj (map phase U @ map phase [c, fst st]) = [Upload, Complete]"
    by (rule remdups_adj_block[OF ne(3) _ b4]) (use U in auto)
  have b2: "remdups_adj (map phase D @ map phase U @ map phase [c, fst st]) = [Download, Upload, Complete]"
    by (rule remdups_adj_block[OF ne(2) _ b3]) (use D in auto)
  have b1: "remdups_adj (map phase P @ map phase D @ map phase U @ map phase [c, fst st])
      = [Ping, Download, Upload, Complete]"
    by (rule remdups_adj_block[OF ne(1) _ b2]) (use P in auto)
  have b0: "remdups_adj (map phase (s # R) @ map phase P @ map phase D @ map phase U @ map phase [c, fst st])
      = [phase s, Ping, Download, Upload, Complete]"
    by (rule remdups_adj_block[OF _ _ b1]) (use R assms(2) in auto)
  have v: "visited st = [phase s, Ping, Download, Upload, Complete]"
    using b0 by (simp add: visited_def tr)
  have t: "trace st = (s # R) @ P @ D @ U @ [c, fst st]" using tr by simp
  have A: "\<forall>x \<in> set (s # R). phase x = phase s" using R by simp
  have Pp: "\<forall>x \<in> set P. phase x = Ping" using P by simp
  have Dp: "\<forall>x \<in> set D. phase x = Download" using D by simp
  have Up: "\<forall>x \<in> set U. phase x = Upload" using U by simp
  have Cp: "\<forall>x \<in> set [c, fst st]. phase x = Complete" using pc fin by simp
  have Dr: "\<forall>x \<in> set D. ping x = ping (fst st) \<and> jitter x = jitter (fst st)" using D by simp
  have Ur: "\<forall>x \<in> set U. downloadSpeed x = Some dl \<and> ping x = ping (fst st) \<and> jitter x = jitter (fst st)"
    using U dl by simp
  have Cr: "\<forall>x \<in> set [c, fst st]. uploadSpeed x = Some ul \<and> downloadSpeed x = Some dl \<and>
      progress x = Fin 100 \<and> ping x = ping (fst st) \<and> jitter x = jitter (fst st)"
    using c dl ul pr by simp
  have f1: "(s # R) @ P = trace (runPingTest e (start_run s))" using e1 by simp
  have f3: "(s # R) @ P @ D = trace (setDownloadSpeed (Some dl) st1)" using e3 by simp
  have f5: "(s # R) @ P @ D @ U = trace (setUploadSpeed (Some ul) st2)" using e5 by simp
  show ?thesis
    apply (rule exI[of _ st], rule exI[of _ "s # R"], rule exI[of _ P], rule exI[of _ D],
        rule exI[of _ U], rule exI[of _ "[c, fst st]"], rule exI[of _ dl], rule exI[of _ st1],
        rule exI[of _ ul], rule exI[of _ st2])
    apply (intro conjI)
                        apply (rule st)
                        apply (rule v)
                        apply (rule t)
                        apply simp
                        apply (rule ne(1))
                        apply (rule ne(2))
                        apply (rule ne(3))
                        apply simp
                        apply (rule A)
                        apply (rule Pp)
                        apply (rule Dp)
                        apply (rule Up)
                        apply (rule Cp)
                        apply (rule f1)
                        apply (rule e2)
                        apply (rule f3)
                        apply (rule e4)
                        apply (rule f5)
                        apply (rule Dr)
                        apply (rule Ur)
                        apply (rule Cr)
    apply simp
    done
qed

text \<open>
  The first run, from the initial session, visits the five phases.
\<close>

theorem phases_of_run_witness:
  "download_settles offline_env \<and> (phase initial = Idle \<or> phase initial = Complete) \<and>
   (\<exists>st. runTest offline_env initial = Some st \<and> visited st = [Idle, Ping, Download, Upload, Complete])"
proof -
  have p: "phase initial = Idle \<or> phase initial = Complete" by (simp add: initial_def)
  from phases_of_run[OF offline_settles p] obtain st where
    "runTest offline_env initial = Some st" "visited st = [phase initial, Ping, Download, Upload, Complete]"
    by blast
  then have "\<exists>st. runTest offline_env initial = Some st \<and> visited st = [Idle, Ping, Download, Upload, Complete]"
    by (simp add: initial_def)
  then show ?thesis using offline_settles p by blast
qed

text \<open>
  C2 as stated fails for the second run: \<open>runTest\<close> does not set the phase back to
  \<open>idle\<close>, so a run from the session that the first run left starts in \<open>complete\<close>.
\<close>

theorem second_run_counterexample:
  "map_option fst (runTest offline_env initial) = Some finished \<and>
   map_option visited (runTest offline_env finished) = Some [Complete, Ping, Download, Upload, Complete] \<and>
   map_option visited (runTest offline_env finished) \<noteq> Some [Idle, Ping, Download, Upload, Complete]"
  by code_simp

section \<open>The results of a run\<close>

text \<open>
  C8 (amended). The trace of a run that returns is the block of the states in which
  \<open>runTest\<close> clears the session, then a block for each of the phases \<open>ping\<close>, \<open>download\<close>,
  \<open>upload\<close> and \<open>complete\<close>. In the first block each result is the one that the session
  had before the run, or null, and all four are null at its end. The download speed is
  null from there up to the last state of the download block, which stores it, and it is
  set, and final, from then on; the upload speed is null up to the last state of the upload
  block, which stores it, and it is set, and final, from then on. The ping and the jitter are
  null when the ping block begins, null or final inside it, and final from its end on; and
  they are set at the end if and only if at least one latency sample was collected.
\<close>

theorem results_null_then_set:
  assumes "runTest e s = Some st"
  shows "\<exists>P D U C.
     trace st = clearing s @ P @ D @ U @ C \<and> P \<noteq> [] \<and> D \<noteq> [] \<and> U \<noteq> [] \<and> C \<noteq> [] \<and>
     (\<forall>x \<in> set (clearing s). phase x = phase s) \<and> (\<forall>x \<in> set P. phase x = Ping) \<and>
     (\<forall>x \<in> set D. phase x = Download) \<and> (\<forall>x \<in> set U. phase x = Upload) \<and>
     (\<forall>x \<in> set C. phase x = Complete) \<and>
     (\<forall>x \<in> set (clearing s).
        (downloadSpeed x = downloadSpeed s \<or> downloadSpeed x = None) \<and>
        (uploadSpeed x = uploadSpeed s \<or> uploadSpeed x = None) \<and>
        (ping x = ping s \<or> ping x = None) \<and> (jitter x = jitter s \<or> jitter x = None)) \<and>
     downloadSpeed (last (clearing s)) = None \<and> uploadSpeed (last (clearing s)) = None \<and>
     ping (last (clearing s)) = None \<and> jitter (last (clearing s)) = None \<and>
     (\<forall>x \<in> set P. downloadSpeed x = None \<and> uploadSpeed x = None \<and>
        (ping x = None \<or> ping x = ping (fst st)) \<and> (jitter x = None \<or> jitter x = jitter (fst st))) \<and>
     ping (hd P) = None \<and> jitter (hd P) = None \<and>
     ping (last P) = ping (fst st) \<and> jitter (last P) = jitter (fst st) \<and>
     (\<forall>x \<in> set D. uploadSpeed x = None \<and> ping x = ping (fst st) \<and> jitter x = jitter (fst st)) \<and>
     (\<forall>x \<in> set (butlast D). downloadSpeed x = None) \<and>
     downloadSpeed (last D) = downloadSpeed (fst st) \<and>
     (\<forall>x \<in> set U. downloadSpeed x = downloadSpeed (fst st) \<and> ping x = ping (fst st) \<and>
        jitter x = jitter (fst st)) \<and>
     (\<forall>x \<in> set (butlast U). uploadSpeed x = None) \<and>
     uploadSpeed (last U) = uploadSpeed (fst st) \<and>
     (\<forall>x \<in> set C. downloadSpeed x = downloadSpeed (fst st) \<and> uploadSpeed x = uploadSpeed (fst st) \<and>
        ping x = ping (fst st) \<and> jitter x = jitter (fst st)) \<and>
     last C = fst st \<and>
     downloadSpeed (fst st) \<noteq> None \<and> uploadSpeed (fst st) \<noteq> None \<and>
     (ping (fst st) \<noteq> None \<longleftrightarrow> samples e \<noteq> []) \<and> (jitter (fst st) \<noteq> None \<longleftrightarrow> samples e \<noteq> [])"
proof -
  obtain R P D U c where
    tr: "trace st = s # R @ P @ D @ U @ [c, fst st]" and
    ne: "P \<noteq> []" "D \<noteq> []" "U \<noteq> []" and
    Rc: "s # R = clearing s" and
    P: "\<forall>x \<in> set P. phase x = Ping \<and> isTesting x \<and> downloadSpeed x = None \<and> uploadSpeed x = None" and
    P2: "\<forall>x \<in> set P. (ping x = None \<or> ping x = ping (fst st)) \<and>
           (jitter x = None \<or> jitter x = jitter (fst st))" and
    hdP: "ping (hd P) = None" "jitter (hd P) = None" and
    lastP: "ping (last P) = ping (fst st)" "jitter (last P) = jitter (fst st)" and
    D: "\<forall>x \<in> set D. phase x = Download \<and> isTesting x \<and> uploadSpeed x = None \<and>
        ping x = ping (fst st) \<and> jitter x = jitter (fst st)" and
    D2: "\<forall>x \<in> set (butlast D). downloadSpeed x = None" and
    D3: "downloadSpeed (last D) = downloadSpeed (fst st)" and
    U: "\<forall>x \<in> set U. phase x = Upload \<and> isTesting x \<and> downloadSpeed x = downloadSpeed (fst st) \<and>
        ping x = ping (fst st) \<and> jitter x = jitter (fst st)" and
    U2: "\<forall>x \<in> set (butlast U). uploadSpeed x = None" and
    U3: "uploadSpeed (last U) = uploadSpeed (fst st)" and
    c: "c = (fst st)\<lparr>isTesting := True\<rparr>" and
    fin: "phase (fst st) = Complete" "downloadSpeed (fst st) \<noteq> None" "uploadSpeed (fst st) \<noteq> None"
    by (rule runTest_blocks[OF assms])
  have pj: "ping (fst st) \<noteq> None \<longleftrightarrow> samples e \<noteq> []" "jitter (fst st) \<noteq> None \<longleftrightarrow> samples e \<noteq> []"
    using runTest_ping_jitter[OF assms] by simp_all
  have t: "trace st = clearing s @ P @ D @ U @ [c, fst st]" using tr Rc[symmetric] by simp
  have A1: "\<forall>x \<in> set (clearing s). phase x = phase s" by (simp add: clearing_def)
  have A2: "\<forall>x \<in> set (clearing s).
        (downloadSpeed x = downloadSpeed s \<or> downloadSpeed x = None) \<and>
        (uploadSpeed x = uploadSpeed s \<or> uploadSpeed x = None) \<and>
        (ping x = ping s \<or> ping x = None) \<and> (jitter x = jitter s \<or> jitter x = None)"
    by (simp add: clearing_def)
  have A3: "downloadSpeed (last (clearing s)) = None" "uploadSpeed (last (clearing s)) = None"
    "ping (last (clearing s)) = None" "jitter (last (clearing s)) = None"
    by (simp_all add: clearing_def)
  have Pp: "\<forall>x \<in> set P. phase x = Ping" using P by simp
  have Dp: "\<forall>x \<in> set D. phase x = Download" using D by simp
  have Up: "\<forall>x \<in> set U. phase x = Upload" using U by simp
  have Cp: "\<forall>x \<in> set [c, fst st]. phase x = Complete" using c fin by simp
  have Pr: "\<forall>x \<in> set P. downloadSpeed x = None \<and> uploadSpeed x = None \<and>
        (ping x = None \<or> ping x = ping (fst st)) \<and> (jitter x = None \<or> jitter x = jitter (fst st))"
    using P P2 by simp
  have Dr: "\<forall>x \<in> set D. uploadSpeed x = None \<and> ping x = ping (fst st) \<and> jitter x = jitter (fst st)"
    using D by simp
  have Ur: "\<forall>x \<in> set U. downloadSpeed x = downloadSpeed (fst st) \<and> ping x = ping (fst st) \<and>
        jitter x = jitter (fst st)"
    using U by simp
  have Cr: "\<forall>x \<in> set [c, fst st]. downloadSpeed x = downloadSpeed (fst st) \<and>
        uploadSpeed x = uploadSpeed (fst st) \<and> ping x = ping (fst st) \<and> jitter x = jitter (fst st)"
    using c by simp
  show ?thesis
    apply (rule exI[of _ P], rule exI[of _ D], rule exI[of _ U], rule exI[of _ "[c, fst st]"])
    apply (intro conjI)
                        apply (rule t)
                        apply (rule ne(1))
                        apply (rule ne(2))
                        apply (rule ne(3))
                        apply simp
                        apply (rule A1)
                        apply (rule Pp)
                        apply (rule Dp)
                        apply (rule Up)
                        apply (rule Cp)
                        apply (rule A2)
                        apply (rule A3(1))
                        apply (rule A3(2))
                        apply (rule A3(3))
                        apply (rule A3(4))
                        apply (rule Pr)
                        apply (rule hdP(1))
                        apply (rule hdP(2))
                        apply (rule lastP(1))
                        apply (rule lastP(2))
                        apply (rule Dr)
                        apply (rule D2)
                        apply (rule D3)
                        apply (rule Ur)
                        apply (rule U2)
                        apply (rule U3)
                        apply (rule Cr)
                        apply simp
                        apply (rule fin(2))
                        apply (rule fin(3))
                        apply (rule pj(1))
                        apply (rule pj(2))
    done
qed

text \<open>
  The run of the example sets the four results.
\<close>

theorem results_null_then_set_witness:
  "\<exists>st. runTest example_env initial = Some st \<and> downloadSpeed (fst st) \<noteq> None \<and>
     uploadSpeed (fst st) \<noteq> None \<and> ping (fst st) \<noteq> None \<and> jitter (fst st) \<noteq> None"
proof -
  from runTest_returns[OF example_settles] obtain st where st: "runTest example_env initial = Some st"
    by blast
  have "samples example_env \<noteq> []" by (simp add: samples_example)
  with results_null_then_set[OF st] have "downloadSpeed (fst st) \<noteq> None \<and>
     uploadSpeed (fst st) \<noteq> None \<and> ping (fst st) \<noteq> None \<and> jitter (fst st) \<noteq> None"
    by blast
  then show ?thesis using st by blast
qed

text \<open>
  C8 as stated fails when every latency probe is rejected: the run completes and the ping
  and the jitter are still null. It fails also at the beginning of a second run: its first
  states, before the results are cleared, still hold the download speed of the first run.
\<close>

theorem ping_stays_null_counterexample:
  "samples offline_env = [] \<and>
   map_option (phase \<circ> fst) (runTest offline_env initial) = Some Complete \<and>
   map_option (ping \<circ> fst) (runTest offline_env initial) = Some None \<and>
   map_option (jitter \<circ> fst) (runTest offline_env initial) = Some None \<and>
   map_option (\<lambda>st. map downloadSpeed (take 3 (trace st))) (runTest offline_env finished)
     = Some [Some (Fin 50), Some (Fin 50), Some (Fin 50)] \<and>
   map_option (\<lambda>st. map phase (take 3 (trace st))) (runTest offline_env finished)
     = Some [Complete, Complete, Complete] \<and>
   map_option (\<lambda>st. map isTesting (take 3 (trace st))) (runTest offline_env finished)
     = Some [False, True, True]"
  by code_simp

section \<open>The results of the ping phase\<close>

lemma js_round_nonneg: "0 \<le> x \<Longrightarrow> js_round (Fin x) = Fin (of_int (round x))"
  by (simp add: round_def Let_def)

text \<open>
  C1 (amended). When the ping phase of a run has collected at least one latency sample, it
  stores as ping \<open>Math.round\<close> of the least sample, and as jitter \<open>Math.round\<close> of the
  mean of the absolute deviations of the samples from their mean, over exactly the probes
  that resolved, the two means being computed in the arithmetic of JavaScript (every sum,
  difference and quotient rounded to a double); the ping is the nearest integer to the least
  sample when no sample is negative. If no sample was collected both stay null. For the
  samples 40, 42, 38, 41, 200 the ping is 38 and the jitter is 51. What the ping phase has
  stored is what the run ends with.
\<close>

theorem ping_and_jitter:
  "(samples e \<noteq> [] \<longrightarrow>
      ping (fst (runPingTest e (start_run s))) = Some (js_round (math_min (samples e))) \<and>
      jitter (fst (runPingTest e (start_run s))) = Some (js_round (js_mean_abs_dev (samples e)))) \<and>
   (\<forall>xs. xs \<noteq> [] \<and> samples e = map Fin xs \<longrightarrow>
      ping (fst (runPingTest e (start_run s))) = Some (js_round (Fin (Min (set xs))))) \<and>
   (\<forall>xs. xs \<noteq> [] \<and> samples e = map Fin xs \<and> (\<forall>x \<in> set xs. 0 \<le> x) \<longrightarrow>
      ping (fst (runPingTest e (start_run s))) = Some (Fin (of_int (round (Min (set xs)))))) \<and>
   (samples e = [] \<longrightarrow>
      ping (fst (runPingTest e (start_run s))) = None \<and>
      jitter (fst (runPingTest e (start_run s))) = None) \<and>
   (samples e = map Fin [40, 42, 38, 41, 200] \<longrightarrow>
      ping (fst (runPingTest e (start_run s))) = Some (Fin 38) \<and>
      jitter (fst (runPingTest e (start_run s))) = Some (Fin 51)) \<and>
   (\<forall>st. runTest e s = Some st \<longrightarrow>
      ping (fst st) = ping (fst (runPingTest e (start_run s))) \<and>
      jitter (fst st) = jitter (fst (runPingTest e (start_run s)))) \<and>
   (download_settles e \<longrightarrow>
      (\<exists>st. runTest e s = Some st \<and> ping (fst st) = ping (fst (runPingTest e (start_run s))) \<and>
         jitter (fst st) = jitter (fst (runPingTest e (start_run s)))))"
proof -
  let ?st = "runPingTest e (start_run s)"
  have some: "ping (fst ?st) = Some (js_round (math_min (samples e)))"
      "jitter (fst ?st) = Some (js_round (js_mean_abs_dev (samples e)))" if "samples e \<noteq> []"
    using that by (simp_all add: fst_runPingTest del: js_round.simps)
  have none: "ping (fst ?st) = None" "jitter (fst ?st) = None" if "samples e = []"
    using that by (simp_all add: fst_runPingTest fst_start_run)
  have fin: "ping (fst ?st) = Some (js_round (Fin (Min (set xs))))" if "xs \<noteq> []" "samples e = map Fin xs" for xs
    using that some(1) by (simp add: math_min_Fin del: js_round.simps)
  have nonneg: "ping (fst ?st) = Some (Fin (of_int (round (Min (set xs)))))"
    if "xs \<noteq> []" "samples e = map Fin xs" "\<forall>x \<in> set xs. 0 \<le> x" for xs
  proof -
    have "0 \<le> Min (set xs)" using that by simp
    then have "js_round (Fin (Min (set xs))) = Fin (of_int (round (Min (set xs))))" by (rule js_round_nonneg)
    then show ?thesis using fin[OF that(1,2)] by simp
  qed
  have ex: "ping (fst ?st) = Some (Fin 38)" "jitter (fst ?st) = Some (Fin 51)"
    if "samples e = map Fin [40, 42, 38, 41, 200]"
    using some that example_values by simp_all
  have run: "ping (fst st) = ping (fst ?st) \<and> jitter (fst st) = jitter (fst ?st)" if "runTest e s = Some st" for st
    using runTest_results[OF that] by blast
  have tot: "\<exists>st. runTest e s = Some st \<and> ping (fst st) = ping (fst ?st) \<and> jitter (fst st) = jitter (fst ?st)"
    if "download_settles e"
    using runTest_returns[OF that] run by blast
  show ?thesis
    apply (intro conjI allI impI)
             apply (rule some(1), assumption)
            apply (rule some(2), assumption)
           apply (erule conjE, rule fin, assumption, assumption)
          apply (elim conjE, rule nonneg, assumption, assumption, assumption)
         apply (rule none(1), assumption)
        apply (rule none(2), assumption)
       apply (rule ex(1), assumption)
      apply (rule ex(2), assumption)
     apply (rule run[THEN conjunct1], assumption)
    apply (rule run[THEN conjunct2], assumption)
    apply (rule tot, assumption)
    done
qed

text \<open>The run of the example is such a run.\<close>

theorem ping_and_jitter_witness:
  "samples example_env = map Fin [40, 42, 38, 41, 200] \<and> download_settles example_env \<and>
   (\<exists>st. runTest example_env initial = Some st \<and> ping (fst st) = Some (Fin 38) \<and>
      jitter (fst st) = Some (Fin 51))"
  using ping_and_jitter[of example_env initial] samples_example example_settles by auto

text \<open>
  C1 as stated fails. For the samples 40, 42, 38, 41, 200 the ping phase stores the jitter
  51, not 56, and 51 is what the formula of the claim gives. And the stored jitter is not
  always the nearest integer to the mean absolute deviation of the samples: for the samples
  58.45, 28.47, 48.55, 12.42 and 82.46 (as doubles) that deviation is just below 20.5 and
  rounds to 20, but computed in doubles it is 20.5, and the jitter stored is 21.
\<close>

theorem jitter_example_counterexample:
  "samples example_env = map Fin [40, 42, 38, 41, 200] \<and>
   jitter (fst (runPingTest example_env (start_run initial))) = Some (Fin 51) \<and>
   jitter (fst (runPingTest example_env (start_run initial))) \<noteq> Some (Fin 56) \<and>
   round (mean_abs_dev [40, 42, 38, 41, 200]) = 51 \<and>
   samples rounding_env = map Fin rounding_samples \<and>
   jitter (fst (runPingTest rounding_env (start_run initial))) = Some (Fin 21) \<and>
   round (mean_abs_dev rounding_samples) = 20"
proof -
  have a: "jitter (fst (runPingTest example_env (start_run initial))) = Some (Fin 51)"
    using example_values(2) by (simp add: fst_runPingTest samples_example del: js_round.simps)
  have b: "round (mean_abs_dev [40, 42, 38, 41, 200]) = 51" by code_simp
  have r: "rounding_samples \<noteq> []" by (simp add: rounding_samples_def)
  have c: "jitter (fst (runPingTest rounding_env (start_run initial))) = Some (Fin 21)"
    using r by (simp add: fst_runPingTest samples_rounding rounding_values(1) del: js_round.simps)
  show ?thesis using a b c samples_example samples_rounding rounding_values(2) by simp
qed

section \<open>The progress and the speed of a download\<close>

lemma progress_at_exact:
  assumes "0 < c" and "0 \<le> received" and "dbl (received / c) = Fin (received / c)"
    and "dbl (received / c * 100) = Fin (received / c * 100)"
  shows "progress_at (Fin received) (Fin c) = Fin (min 100 (received / c * 100))"
proof (cases "received = 0")
  case True
  then show ?thesis using assms(1)
    by (simp add: progress_at_def js_div_def js_mul_def js_min_Fin is_nan_def is_inf_def
        is_zero_def signed_zero_def)
next
  case False
  then have r: "0 < received" using assms(2) by simp
  then have q: "0 < received / c" using assms(1) by simp
  have "js_div (Fin received) (Fin c) = Fin (received / c)" using r assms(1,3) by (simp add: js_div_pos)
  moreover have "js_mul (Fin (received / c)) (Fin 100) = Fin (received / c * 100)"
    using q assms(4) by (simp add: js_mul_pos)
  ultimately show ?thesis by (simp add: progress_at_def js_min_Fin)
qed

text \<open>
  C7 (amended). In a download that is not simulated, the progress set after each chunk is
  \<open>min(100, received / contentLength * 100)\<close> in the arithmetic of JavaScript, where
  \<open>received\<close> is the number of bytes received so far (the exact number as long as it is
  below \<open>2 ^ 53\<close>) and \<open>contentLength\<close> is the header \<open>Content-Length\<close> converted to a
  number, or 5,000,000 when the header is absent or empty. For a positive finite
  \<open>contentLength\<close> that progress is within \<open>2 ^ -43\<close> of the rational
  \<open>min 100 (received / contentLength * 100)\<close>, and it is that rational when the quotient
  and the product are doubles.
\<close>

theorem download_progress:
  assumes "downloadFetch e = Some resp" and "ok resp" and "body resp = Some reader"
    and "\<forall>j<length ks. reader j = Chunk (ks ! j)"
    and "reader (length ks) = Done \<or> reader (length ks) = ReadRejected"
  shows "(\<exists>v st'. runDownloadTest e st = Some (v, st') \<and>
            map progress (take (length ks) (drop (length (trace st)) (trace st'))) =
              map (\<lambda>received. progress_at received (contentLength_of (content_length resp)))
                (js_running_totals (Fin 0) ks)) \<and>
         (sum_list ks < 2 ^ 53 \<longrightarrow>
            js_running_totals (Fin 0) ks = map (\<lambda>received. Fin (of_nat received)) (running_totals 0 ks)) \<and>
         (content_length resp = None \<or> content_length resp = Some [] \<longrightarrow>
            contentLength_of (content_length resp) = Fin 5000000) \<and>
         (\<forall>v. content_length resp = Some v \<and> v \<noteq> [] \<longrightarrow>
            contentLength_of (content_length resp) = toNumber v) \<and>
         (\<forall>c received. 0 < c \<and> 0 \<le> received \<longrightarrow>
            (\<exists>p. progress_at (Fin received) (Fin c) = Fin p \<and>
               \<bar>p - min 100 (received / c * 100)\<bar> \<le> 2 powi (- 43))) \<and>
         (\<forall>c received. 0 < c \<and> 0 \<le> received \<and> dbl (received / c) = Fin (received / c) \<and>
              dbl (received / c * 100) = Fin (received / c * 100) \<longrightarrow>
            progress_at (Fin received) (Fin c) = Fin (min 100 (received / c * 100)))"
proof -
  let ?cl = "contentLength_of (content_length resp)"
  from runDownloadTest_stream[OF assms, of st] obtain st1 where
    tr: "trace st1 = trace st @ map (\<lambda>received. (fst st)\<lparr>progress := progress_at received ?cl\<rparr>)
           (js_running_totals (Fin 0) ks)"
    and run: "runDownloadTest e st =
             Some (if reader (length ks) = Done
                   then (speed_of (received_bytes ks) (dbl (downloadStart e)) (dbl (downloadEnd e)), st1)
                   else download_catch st1)"
    by blast
  have p1: "map progress (take (length ks) (drop (length (trace st)) (trace st1))) =
      map (\<lambda>received. progress_at received ?cl) (js_running_totals (Fin 0) ks)"
    by (simp add: tr length_js_running_totals comp_def)
  have c1: "\<exists>v st'. runDownloadTest e st = Some (v, st') \<and>
            map progress (take (length ks) (drop (length (trace st)) (trace st'))) =
              map (\<lambda>received. progress_at received ?cl) (js_running_totals (Fin 0) ks)"
  proof (cases "reader (length ks) = Done")
    case True
    then show ?thesis using run p1 by auto
  next
    case False
    have "trace (snd (download_catch st1)) = trace st1 @ [(fst st1)\<lparr>error := Some ''Speed test failed. Please try again.''\<rparr>]"
      by (simp add: download_catch_def setError_def trace_set_state)
    then have "map progress (take (length ks) (drop (length (trace st)) (trace (snd (download_catch st1))))) =
      map (\<lambda>received. progress_at received ?cl) (js_running_totals (Fin 0) ks)"
      by (simp add: tr length_js_running_totals comp_def)
    moreover have "runDownloadTest e st = Some (fst (download_catch st1), snd (download_catch st1))"
      using run False by simp
    ultimately show ?thesis by blast
  qed
  have c2: "sum_list ks < 2 ^ 53 \<longrightarrow>
      js_running_totals (Fin 0) ks = map (\<lambda>received. Fin (of_nat received)) (running_totals 0 ks)"
    using js_running_totals_exact[of 0 ks] by simp
  have c3: "content_length resp = None \<or> content_length resp = Some [] \<longrightarrow> ?cl = Fin 5000000"
    by (auto simp: contentLength_of_def contentLength_default)
  have c4: "\<forall>v. content_length resp = Some v \<and> v \<noteq> [] \<longrightarrow> ?cl = toNumber v"
    by (auto simp: contentLength_of_def)
  have c5: "\<forall>c received. 0 < c \<and> 0 \<le> received \<longrightarrow>
            (\<exists>p. progress_at (Fin received) (Fin c) = Fin p \<and>
               \<bar>p - min 100 (received / c * 100)\<bar> \<le> 2 powi (- 43))"
    using progress_at_bound by blast
  have c6: "\<forall>c received. 0 < c \<and> 0 \<le> received \<and> dbl (received / c) = Fin (received / c) \<and>
              dbl (received / c * 100) = Fin (received / c * 100) \<longrightarrow>
            progress_at (Fin received) (Fin c) = Fin (min 100 (received / c * 100))"
    using progress_at_exact by blast
  show ?thesis
    apply (intro conjI)
         apply (rule c1)
        apply (rule c2)
       apply (rule c3)
      apply (rule c4)
     apply (rule c5)
    apply (rule c6)
    done
qed

text \<open>
  The download of the example has no \<open>Content-Length\<close>: after each of its two chunks of
  5,000,000 bytes the progress is 100.
\<close>

theorem download_progress_witness:
  "\<exists>v st'. runDownloadTest example_env (initial, []) = Some (v, st') \<and>
     map progress (take 2 (drop 1 (trace st'))) = [Fin 100, Fin 100]"
proof -
  have f: "downloadFetch example_env = Some example_response" by (simp add: example_env_def)
  have o: "ok example_response" by (simp add: example_response_def)
  have b: "body example_response = Some example_reader" by (simp add: example_response_def)
  have c: "\<forall>j<length [5000000, 5000000]. example_reader j = Chunk ([5000000, 5000000] ! j)"
    by (simp add: example_reader_def less_Suc_eq)
  have d: "example_reader (length [5000000, 5000000 :: nat]) = Done \<or>
      example_reader (length [5000000, 5000000 :: nat]) = ReadRejected"
    by (simp add: example_reader_def)
  have cl: "content_length example_response = None" by (simp add: example_response_def)
  have s: "sum_list [5000000, 5000000 :: nat] < 2 ^ 53" by simp
  from download_progress[OF f o b c d, of "(initial, [])"] cl s obtain v st' where
    r: "runDownloadTest example_env (initial, []) = Some (v, st')" and
    p: "map progress (take (length [5000000, 5000000 :: nat]) (drop (length (trace (initial, []))) (trace st'))) =
          map (\<lambda>received. progress_at received (Fin 5000000)) (js_running_totals (Fin 0) [5000000, 5000000])" and
    q: "js_running_totals (Fin 0) [5000000, 5000000] =
          map (\<lambda>received. Fin (of_nat received)) (running_totals 0 [5000000, 5000000])"
    by auto
  have h: "map progress (take 2 (drop 1 (trace st'))) = [Fin 100, Fin 100]"
    using p example_progress(1,2) unfolding q by (simp add: trace_start numeral_2_eq_2)
  show ?thesis by (intro exI conjI) (rule r, rule h)
qed

text \<open>
  C7 as stated fails for a header that is not a number: \<open>+'abc'\<close> is \<open>NaN\<close>, not
  5,000,000, so after a chunk of 1000 bytes the progress is \<open>NaN\<close> and not the 0.02 that
  the default would give.
\<close>

theorem nonnumeric_length_counterexample:
  "content_length nonnumeric_response = Some ''abc'' \<and>
   map_option (map progress \<circ> trace \<circ> snd) (runDownloadTest nonnumeric_env (initial, [])) = Some [Fin 0, NaN] \<and>
   progress_at (Fin 1000) (Fin 5000000) = dbl (1 / 50) \<and> dbl (1 / 50) \<noteq> NaN"
proof -
  have f: "downloadFetch nonnumeric_env = Some nonnumeric_response"
    by (simp add: nonnumeric_env_def example_env_def)
  have o: "ok nonnumeric_response" by (simp add: nonnumeric_response_def)
  have b: "body nonnumeric_response = Some short_reader" by (simp add: nonnumeric_response_def)
  have c: "\<forall>j<length [1000]. short_reader j = Chunk ([1000] ! j)"
    by (simp add: short_reader_def)
  have d: "short_reader (length [1000 :: nat]) = Done \<or> short_reader (length [1000 :: nat]) = ReadRejected"
    by (simp add: short_reader_def)
  have cl: "content_length nonnumeric_response = Some ''abc''" by (simp add: nonnumeric_response_def)
  have n: "contentLength_of (Some ''abc'') = NaN" by (simp add: contentLength_of_def toNumber_abc)
  have t: "js_add (Fin 0) (dbl 1000) = Fin 1000"
    using js_add_of_nat[of 0 1000] by simp
  from runDownloadTest_stream[OF f o b c d, of "(initial, [])"] obtain st1 v where
    tr: "trace st1 = [initial, initial\<lparr>progress := progress_at (Fin 1000) NaN\<rparr>]" and
    run: "runDownloadTest nonnumeric_env (initial, []) = Some (v, st1)"
    by (auto simp: cl n t trace_start short_reader_def)
  have "map progress [initial, initial\<lparr>progress := NaN\<rparr>] = [Fin 0, NaN]"
    by (simp add: initial_def)
  then have "map_option (map progress \<circ> trace \<circ> snd) (runDownloadTest nonnumeric_env (initial, [])) = Some [Fin 0, NaN]"
    by (simp add: run tr example_progress(3))
  moreover have "dbl (1 / 50) \<noteq> NaN" by code_simp
  ultimately show ?thesis using cl example_progress(4) by blast
qed

text \<open>
  C5 (amended). When the body of a successful download ends after the chunks \<open>ks\<close>, the
  run returns and the stored download speed is \<open>Math.round\<close> of
  \<open>receivedBytes * 8 / elapsedSeconds / 1,048,576\<close> computed in the arithmetic of
  JavaScript (the product and each quotient rounded to a double), where \<open>receivedBytes\<close> is
  the sum of the chunks (exact as long as it is below \<open>2 ^ 53\<close>) and \<open>elapsedSeconds\<close> the
  thousandth of the time between the beginning of \<open>runDownloadTest\<close> and the end of the
  stream. When between 1 and \<open>2 ^ 53 - 1\<close> bytes have arrived and the two readings of the
  clock are between \<open>1 / 1024\<close> and \<open>2 ^ 40\<close> milliseconds apart, the number that is
  rounded differs from the exact quotient by at most its \<open>2 ^ 50\<close>th part, and the speed
  stored is the integer nearest to it, a tie going up.
\<close>

theorem download_speed:
  assumes "downloadFetch e = Some resp" and "ok resp" and "body resp = Some reader"
    and "\<forall>j<length ks. reader j = Chunk (ks ! j)" and "reader (length ks) = Done"
  shows "\<exists>st. runTest e s = Some st \<and>
           downloadSpeed (fst st) = Some (mbps (received_bytes ks) (elapsed_seconds e)) \<and>
           (sum_list ks < 2 ^ 53 \<longrightarrow> received_bytes ks = Fin (of_nat (sum_list ks))) \<and>
           (\<forall>t0 t1. dbl (downloadStart e) = Fin t0 \<and> dbl (downloadEnd e) = Fin t1 \<and>
                1 / 1024 \<le> t1 - t0 \<and> t1 - t0 \<le> 2 ^ 40 \<and> 0 < sum_list ks \<and> sum_list ks < 2 ^ 53 \<longrightarrow>
              (\<exists>v. downloadSpeed (fst st) = Some (Fin (of_int (round v))) \<and>
                 \<bar>v - of_nat (sum_list ks) * 8 / ((t1 - t0) / 1000) / 1048576\<bar>
                   \<le> of_nat (sum_list ks) * 8 / ((t1 - t0) / 1000) / 1048576 / 2 ^ 50))"
proof -
  let ?v = "speed_of (received_bytes ks) (dbl (downloadStart e)) (dbl (downloadEnd e))"
  have fin: "reader (length ks) = Done \<or> reader (length ks) = ReadRejected" using assms(5) by simp
  have dl: "\<exists>st1. runDownloadTest e st0 = Some (?v, st1) \<and> error (fst st1) = id (error (fst st0))" for st0
  proof -
    from runDownloadTest_stream[OF assms(1,2,3,4) fin, of st0] obtain st1 where
      tr: "trace st1 = trace st0 @ map (\<lambda>received. (fst st0)\<lparr>progress :=
             progress_at received (contentLength_of (content_length resp))\<rparr>) (js_running_totals (Fin 0) ks)" and
      run: "runDownloadTest e st0 = Some (?v, st1)"
      using assms(5) by auto
    have "keeps error st0 st1" unfolding keeps_def using tr by auto
    then have "error (fst st1) = error (fst st0)" by (rule keeps_fst)
    then show ?thesis using run by simp
  qed
  have "stream_ends reader" unfolding stream_ends_def using assms(5) by blast
  then have "download_settles e" using assms(1,3) by (simp add: download_settles_def)
  from runTest_returns[OF this] obtain st where st: "runTest e s = Some st" by blast
  from runTest_download[OF st dl] have "downloadSpeed (fst st) = Some ?v" by simp
  then have sp: "downloadSpeed (fst st) = Some (mbps (received_bytes ks) (elapsed_seconds e))"
    by (simp only: speed_of_mbps)
  have ex: "sum_list ks < 2 ^ 53 \<longrightarrow> received_bytes ks = Fin (of_nat (sum_list ks))"
    using received_bytes_exact by blast
  have bd: "\<exists>v. downloadSpeed (fst st) = Some (Fin (of_int (round v))) \<and>
                 \<bar>v - of_nat (sum_list ks) * 8 / ((t1 - t0) / 1000) / 1048576\<bar>
                   \<le> of_nat (sum_list ks) * 8 / ((t1 - t0) / 1000) / 1048576 / 2 ^ 50"
    if h: "dbl (downloadStart e) = Fin t0 \<and> dbl (downloadEnd e) = Fin t1 \<and>
                1 / 1024 \<le> t1 - t0 \<and> t1 - t0 \<le> 2 ^ 40 \<and> 0 < sum_list ks \<and> sum_list ks < 2 ^ 53"
    for t0 t1
  proof -
    from h have n: "0 < sum_list ks" "sum_list ks < 2 ^ 53" and d: "1 / 1024 \<le> t1 - t0" "t1 - t0 \<le> 2 ^ 40"
      and t: "dbl (downloadStart e) = Fin t0" "dbl (downloadEnd e) = Fin t1"
      by simp_all
    from mbps_bound[OF n d] obtain v where
      v: "js_div (js_div (js_mul (Fin (of_nat (sum_list ks))) (Fin 8))
                  (js_div (js_sub (Fin t1) (Fin t0)) (Fin 1000))) (Fin 1048576) = Fin v" "0 < v"
        "\<bar>v - of_nat (sum_list ks) * 8 / ((t1 - t0) / 1000) / 1048576\<bar>
               \<le> of_nat (sum_list ks) * 8 / ((t1 - t0) / 1000) / 1048576 / 2 ^ 50"
      by blast
    have "mbps (received_bytes ks) (elapsed_seconds e) = js_round (Fin v)"
      unfolding mbps_def elapsed_seconds_def t received_bytes_exact[OF n(2)] v(1) ..
    also have "\<dots> = Fin (of_int (round v))" using v(2) by (intro js_round_nonneg) simp
    finally show ?thesis using sp v(3) by auto
  qed
  show ?thesis
    apply (rule exI[of _ st])
    apply (intro conjI allI impI)
       apply (rule st)
      apply (rule sp)
     apply (rule ex[rule_format], assumption)
    apply (rule bd, assumption)
    done
qed

text \<open>
  In the example 10,000,000 bytes arrive in 4.0 seconds: the result is 19.
\<close>

theorem download_speed_witness:
  "\<exists>st. runTest example_env initial = Some st \<and> downloadSpeed (fst st) = Some (Fin 19)"
proof -
  have f: "downloadFetch example_env = Some example_response" by (simp add: example_env_def)
  have o: "ok example_response" by (simp add: example_response_def)
  have b: "body example_response = Some example_reader" by (simp add: example_response_def)
  have c: "\<forall>j<length [5000000, 5000000]. example_reader j = Chunk ([5000000, 5000000] ! j)"
    by (simp add: example_reader_def less_Suc_eq)
  have d: "example_reader (length [5000000, 5000000 :: nat]) = Done"
    by (simp add: example_reader_def)
  have s: "sum_list [5000000, 5000000 :: nat] < 2 ^ 53" by simp
  from download_speed[OF f o b c d, of initial] s obtain st where
    st: "runTest example_env initial = Some st" and
    v: "downloadSpeed (fst st) = Some (mbps (received_bytes [5000000, 5000000]) (elapsed_seconds example_env))" and
    r: "received_bytes [5000000, 5000000] = Fin (of_nat (sum_list [5000000, 5000000]))"
    by blast
  have "downloadSpeed (fst st) = Some (Fin 19)" using example_speed unfolding v r by simp
  then show ?thesis using st by blast
qed

text \<open>
  C5 as stated fails when the exact quotient is half way between two integers and the
  quotients in doubles fall below it: 8,847,360 bytes in 1.08 seconds are exactly 62.5
  Mbps, which rounds to 63, and the speed stored is 62.
\<close>

theorem half_way_counterexample:
  "downloadStart half_env = 0 \<and> downloadEnd half_env = 1080 \<and>
   map_option (downloadSpeed \<circ> fst) (runTest half_env initial) = Some (Some (Fin 62)) \<and>
   round ((8847360 :: rat) * 8 / ((1080 - 0) / 1000) / 1048576) = 63"
proof -
  have f: "downloadFetch half_env = Some half_response" by (simp add: half_env_def example_env_def)
  have o: "ok half_response" by (simp add: half_response_def)
  have b: "body half_response = Some half_reader" by (simp add: half_response_def)
  have c: "\<forall>j<length [8847360]. half_reader j = Chunk ([8847360] ! j)"
    by (simp add: half_reader_def)
  have d: "half_reader (length [8847360 :: nat]) = Done \<or> half_reader (length [8847360 :: nat]) = ReadRejected"
    by (simp add: half_reader_def)
  have r: "received_bytes [8847360] = Fin 8847360"
    using received_bytes_exact[of "[8847360]"] by simp
  have dl: "\<exists>st1. runDownloadTest half_env st0 = Some (Fin 62, st1) \<and> error (fst st1) = id (error (fst st0))"
    for st0
  proof -
    from runDownloadTest_stream[OF f o b c d, of st0] obtain st1 where
      tr: "trace st1 = trace st0 @ map (\<lambda>received. (fst st0)\<lparr>progress :=
             progress_at received (contentLength_of (content_length half_response))\<rparr>)
               (js_running_totals (Fin 0) [8847360])" and
      run: "runDownloadTest half_env st0 =
        Some (speed_of (received_bytes [8847360]) (dbl (downloadStart half_env)) (dbl (downloadEnd half_env)), st1)"
      by (auto simp: half_reader_def)
    have "keeps error st0 st1" unfolding keeps_def using tr by auto
    then have "error (fst st1) = error (fst st0)" by (rule keeps_fst)
    then show ?thesis using run half_speed(1) by (simp add: speed_of_mbps r)
  qed
  have "half_reader 1 = Done" by (simp add: half_reader_def)
  then have "stream_ends half_reader" unfolding stream_ends_def by blast
  then have "download_settles half_env" using f b by (simp add: download_settles_def)
  from runTest_returns[OF this] obtain st where st: "runTest half_env initial = Some st" by blast
  from runTest_download[OF st dl] have "downloadSpeed (fst st) = Some (Fin 62)" by simp
  then have "map_option (downloadSpeed \<circ> fst) (runTest half_env initial) = Some (Some (Fin 62))"
    by (simp add: st)
  moreover have "downloadStart half_env = 0" "downloadEnd half_env = 1080"
    by (simp_all add: half_env_def example_env_def)
  ultimately show ?thesis using half_speed(2) by blast
qed

section \<open>The simulated speeds and the failure of the stream\<close>

text \<open>
  C4 (amended). With \<open>Math.random()\<close> in \<open>[0, 1)\<close>: when the download request is rejected
  or its response is not successful, the run returns and the stored download speed is an
  integer \<open>k\<close> between 50 and 150, which is produced only for the random numbers within
  \<open>2 ^ -52\<close> of the interval \<open>[(k - 50) / 101, (k - 49) / 101)\<close>; so the result is uniform up
  to the rounding of the product when the random number is. In every run that returns,
  and every run whose download settles returns, the stored upload speed is an integer
  between 10 and 50, produced only within \<open>2 ^ -52\<close> of \<open>[(k - 10) / 41, (k - 9) / 41)\<close>.
\<close>

theorem simulated_speeds:
  assumes "0 \<le> downloadRandom e" and "downloadRandom e < 1"
    and "0 \<le> uploadRandom e" and "uploadRandom e < 1"
  shows "(downloadFetch e = None \<or> (\<exists>resp. downloadFetch e = Some resp \<and> \<not> ok resp) \<longrightarrow>
            (\<exists>st k. runTest e s = Some st \<and>
               downloadSpeed (fst st) = Some (Fin (of_int k)) \<and> 50 \<le> k \<and> k \<le> 150 \<and>
               of_int (k - 50) / 101 - 2 powi (- 52) \<le> downloadRandom e \<and>
               downloadRandom e < of_int (k - 49) / 101 + 2 powi (- 52))) \<and>
         (download_settles e \<longrightarrow> (\<exists>st. runTest e s = Some st)) \<and>
         (\<forall>st. runTest e s = Some st \<longrightarrow>
            (\<exists>k. uploadSpeed (fst st) = Some (Fin (of_int k)) \<and> 10 \<le> k \<and> k \<le> 50 \<and>
               of_int (k - 10) / 41 - 2 powi (- 52) \<le> uploadRandom e \<and>
               uploadRandom e < of_int (k - 9) / 41 + 2 powi (- 52)))"
proof (intro conjI impI allI)
  assume sim: "downloadFetch e = None \<or> (\<exists>resp. downloadFetch e = Some resp \<and> \<not> ok resp)"
  then have "download_settles e" by (auto simp: download_settles_def split: option.splits)
  from runTest_returns[OF this] obtain st where st: "runTest e s = Some st" by blast
  from runTest_results[OF st] obtain dl st' where
    dl: "runDownloadTest e (setProgress (Fin 0) (setPhase Download (runPingTest e (start_run s)))) = Some (dl, st')"
      "downloadSpeed (fst st) = Some dl"
    by blast
  from runDownloadTest_simulated[OF sim] dl have d: "dl = random_between 50 150 (downloadRandom e)"
    by simp
  from download_range[OF assms(1,2)] obtain k where
    "random_between 50 150 (downloadRandom e) = Fin (of_int k)" "50 \<le> k" "k \<le> 150"
    "of_int (k - 50) / 101 - 2 powi (- 52) \<le> downloadRandom e"
    "downloadRandom e < of_int (k - 49) / 101 + 2 powi (- 52)"
    by blast
  then show "\<exists>st k. runTest e s = Some st \<and>
               downloadSpeed (fst st) = Some (Fin (of_int k)) \<and> 50 \<le> k \<and> k \<le> 150 \<and>
               of_int (k - 50) / 101 - 2 powi (- 52) \<le> downloadRandom e \<and>
               downloadRandom e < of_int (k - 49) / 101 + 2 powi (- 52)"
    using st dl(2) d by (intro exI[of _ st] exI[of _ k]) simp
next
  assume "download_settles e"
  then show "\<exists>st. runTest e s = Some st" by (rule runTest_returns)
next
  fix st assume st: "runTest e s = Some st"
  from runTest_results[OF st] have
    ul: "uploadSpeed (fst st) = Some (random_between 10 50 (uploadRandom e))"
    by blast
  from upload_range[OF assms(3,4)] obtain k where
    "random_between 10 50 (uploadRandom e) = Fin (of_int k)" "10 \<le> k" "k \<le> 50"
    "of_int (k - 10) / 41 - 2 powi (- 52) \<le> uploadRandom e"
    "uploadRandom e < of_int (k - 9) / 41 + 2 powi (- 52)"
    by blast
  then show "\<exists>k. uploadSpeed (fst st) = Some (Fin (of_int k)) \<and> 10 \<le> k \<and> k \<le> 50 \<and>
               of_int (k - 10) / 41 - 2 powi (- 52) \<le> uploadRandom e \<and>
               uploadRandom e < of_int (k - 9) / 41 + 2 powi (- 52)"
    using ul by (intro exI[of _ k]) simp
qed

text \<open>
  The run without network is such a run.
\<close>

theorem simulated_speeds_witness:
  "0 \<le> downloadRandom offline_env \<and> downloadRandom offline_env < 1 \<and>
   0 \<le> uploadRandom offline_env \<and> uploadRandom offline_env < 1 \<and>
   downloadFetch offline_env = None \<and> download_settles offline_env \<and>
   (\<exists>st k j. runTest offline_env initial = Some st \<and>
     downloadSpeed (fst st) = Some (Fin (of_int k)) \<and> 50 \<le> k \<and> k \<le> 150 \<and>
     uploadSpeed (fst st) = Some (Fin (of_int j)) \<and> 10 \<le> j \<and> j \<le> 50)"
proof -
  have r: "0 \<le> downloadRandom offline_env" "downloadRandom offline_env < 1"
    "0 \<le> uploadRandom offline_env" "uploadRandom offline_env < 1"
    by (simp_all add: offline_env_def)
  have f: "downloadFetch offline_env = None" by (simp add: offline_env_def)
  note s = simulated_speeds[OF r, of initial]
  from s f obtain st k where
    st: "runTest offline_env initial = Some st" "downloadSpeed (fst st) = Some (Fin (of_int k))"
      "50 \<le> k" "k \<le> 150"
    by blast
  from s st(1) obtain j where "uploadSpeed (fst st) = Some (Fin (of_int j))" "10 \<le> j" "j \<le> 50"
    by blast
  then show ?thesis using st r f offline_settles by blast
qed

text \<open>
  C4 as stated fails: the values are not produced on intervals of the same length. The
  random number 0.9900990099009901 is below \<open>100 / 101\<close>, where the result would be 149,
  but its product with 101 rounds to 100 and the result is 150.
\<close>

theorem uniform_counterexample:
  "0 \<le> near_top \<and> near_top < 100 / 101 \<and> dbl_down near_top = near_top \<and>
   \<lfloor>near_top * 101\<rfloor> + 50 = 149 \<and>
   map_option (downloadSpeed \<circ> fst) (runTest (offline_env\<lparr>downloadRandom := near_top\<rparr>) initial)
     = Some (Some (Fin 150))"
  by code_simp

text \<open>
  C3. When a read of the body of a successful download is rejected before the stream has
  ended, the run still returns with the phase \<open>complete\<close>: the error is the message of the
  \<open>catch\<close> block, the download speed is 0, the upload phase has run and the upload speed
  is an integer between 10 and 50. The simulation is not used: the run does not depend on
  the random number of the download.
\<close>

theorem stream_failure:
  assumes "downloadFetch e = Some resp" and "ok resp" and "body resp = Some reader"
    and "reader n = ReadRejected" and "\<forall>i<n. reader i \<noteq> Done"
    and "0 \<le> uploadRandom e" and "uploadRandom e < 1"
  shows "\<exists>st. runTest e s = Some st \<and> phase (fst st) = Complete \<and>
           error (fst st) = Some ''Speed test failed. Please try again.'' \<and>
           downloadSpeed (fst st) = Some (Fin 0) \<and>
           (\<exists>k. uploadSpeed (fst st) = Some (Fin (of_int k)) \<and> 10 \<le> k \<and> k \<le> 50) \<and>
           (\<exists>x \<in> set (trace st). phase x = Upload) \<and>
           (\<forall>r. runTest (e\<lparr>downloadRandom := r\<rparr>) s = Some st)"
proof -
  have "reader n = Done \<or> reader n = ReadRejected" using assms(4) by simp
  from stream_ends_chunks[of reader n, OF this] obtain ks where
    len: "length ks \<le> n" and ks: "\<forall>j<length ks. reader j = Chunk (ks ! j)" and
    fin: "reader (length ks) = Done \<or> reader (length ks) = ReadRejected"
    by blast
  have nd: "reader (length ks) \<noteq> Done"
    using len assms(4,5) by (cases "length ks = n") auto
  have dl: "\<exists>st1. runDownloadTest e st0 = Some (Fin 0, st1) \<and>
      error (fst st1) = (\<lambda>_. Some ''Speed test failed. Please try again.'') (error (fst st0))" for st0
  proof -
    from runDownloadTest_stream[OF assms(1,2,3) ks fin, of st0] nd obtain st1 where
      "runDownloadTest e st0 = Some (download_catch st1)" by auto
    then show ?thesis by (simp add: download_catch_def setError_def fst_set_state)
  qed
  have "stream_ends reader" unfolding stream_ends_def using assms(4) by blast
  then have "download_settles e" using assms(1,3) by (simp add: download_settles_def)
  from runTest_returns[OF this] obtain st where st: "runTest e s = Some st" by blast
  from runTest_download[OF st dl] have d: "downloadSpeed (fst st) = Some (Fin 0)"
    "error (fst st) = Some ''Speed test failed. Please try again.''" by simp_all
  from runTest_results[OF st] have c: "phase (fst st) = Complete"
    and ul: "uploadSpeed (fst st) = Some (random_between 10 50 (uploadRandom e))" by blast+
  from upload_range[OF assms(6,7)] ul
  have u: "\<exists>k. uploadSpeed (fst st) = Some (Fin (of_int k)) \<and> 10 \<le> k \<and> k \<le> 50" by auto
  obtain R P D U c where "trace st = s # R @ P @ D @ U @ [c, fst st]" and "U \<noteq> []" and
    "\<forall>x \<in> set U. phase x = Upload \<and> isTesting x \<and> downloadSpeed x = downloadSpeed (fst st) \<and>
        ping x = ping (fst st) \<and> jitter x = jitter (fst st)"
    by (rule runTest_blocks[OF st])
  then have up: "\<exists>x \<in> set (trace st). phase x = Upload" by (cases U) auto
  have ind: "\<forall>r. runTest (e\<lparr>downloadRandom := r\<rparr>) s = Some st"
    using runTest_downloadRandom[OF assms(1,2)] st by simp
  show ?thesis using st c d u up ind by blast
qed

text \<open>
  A download whose third read is rejected is such a run.
\<close>

theorem stream_failure_witness:
  "\<exists>st. runTest broken_env initial = Some st \<and> phase (fst st) = Complete \<and>
     error (fst st) = Some ''Speed test failed. Please try again.'' \<and>
     downloadSpeed (fst st) = Some (Fin 0) \<and>
     (\<exists>k. uploadSpeed (fst st) = Some (Fin (of_int k)) \<and> 10 \<le> k \<and> k \<le> 50)"
proof -
  have f: "downloadFetch broken_env = Some broken_response" by (simp add: broken_env_def example_env_def)
  have o: "ok broken_response" by (simp add: broken_response_def)
  have b: "body broken_response = Some broken_reader" by (simp add: broken_response_def)
  have r: "broken_reader 2 = ReadRejected" by (simp add: broken_reader_def)
  have n: "\<forall>i<2. broken_reader i \<noteq> Done" by (simp add: broken_reader_def)
  have u: "0 \<le> uploadRandom broken_env" "uploadRandom broken_env < 1"
    by (simp_all add: broken_env_def example_env_def)
  from stream_failure[OF f o b r n u, of initial] show ?thesis by blast
qed

section \<open>The lookup of the network information\<close>

text \<open>
  With a \<open>connection\<close> object the provider is the nested field, else the top-level
  field, else the literal; a rejected request, a body that is not JSON and a response
  without success store nothing.
\<close>

lemma network_info_of_connection:
  assumes "map_of kvs ''success'' = Some success" and "truthy success"
    and "map_of kvs ''connection'' = Some (Obj conn)"
  shows "network_info_of (Obj kvs) =
     Inr (Some \<lparr>ip = (case map_of kvs ''ip'' of None \<Rightarrow> Undefined | Some v \<Rightarrow> v),
       isp = (let nested = (case map_of conn ''isp'' of None \<Rightarrow> Undefined | Some v \<Rightarrow> v);
                  top = (case map_of kvs ''isp'' of None \<Rightarrow> Undefined | Some v \<Rightarrow> v)
              in if truthy nested then nested else if truthy top then top else Str ''Unknown ISP'')\<rparr>)"
  using assms by (simp add: network_info_of_def Let_def)

lemma fetchNetworkInfo_failure:
  "fetchNetworkInfo FetchRejected s = s"
  "fetchNetworkInfo JsonRejected s = s"
  "map_of kvs ''success'' = None \<Longrightarrow> fetchNetworkInfo (Json (Obj kvs)) s = s"
  "map_of kvs ''success'' = Some (Bool False) \<Longrightarrow> fetchNetworkInfo (Json (Obj kvs)) s = s"
  by (simp_all add: fetchNetworkInfo_def network_info_of_def)

text \<open>
  C9 (the code differs). For a successful response that carries the provider at the top
  level and has no \<open>connection\<close> object, reading \<open>data.connection.isp\<close> throws; the
  \<open>catch\<close> block swallows the exception and nothing is stored, although the top-level
  field is there to fall back on.
\<close>

theorem lookup_without_connection:
  "fetchNetworkInfo (Json flat_response) initial = initial \<and>
   ipInfo (fetchNetworkInfo (Json flat_response) initial) = None \<and>
   network_info_of flat_response = Inl TypeError"
  by (simp add: fetchNetworkInfo_def network_info_of_def flat_response_def initial_def)

end
